theory Spec2Isabelle
  imports Main
begin

section \<open>Data model\<close>

text \<open>
  Nodes are objects with identity: two documents, a node and its clone, a node and its
  parent are told apart by reference. The model keeps every node in a store, a list of node
  records; a reference is an index into it, and \<open>new\<close> appends a record. Nothing is ever
  freed, so the index \<open>length s\<close> is always unused.
\<close>

type_synonym ref = nat

text \<open>
  What a method throws: one of the \<open>DOMException\<close> values, or (the placeholder bodies
  \<open>throw ""\<close> of \<open>Document\<close>) a plain string.
\<close>

datatype thrown =
    InvalidCharacterError
  | HierarchyRequestError
  | NotFoundError
  | NotSupportedError
  | ThrownString string

text \<open>The values of \<open>nodeType\<close> (\<open>Node.Document\<close>, \<open>Node.Element\<close>, ...).\<close>

datatype node_type =
    Node_Element
  | Node_Attribute
  | Node_Text
  | Node_CData
  | Node_ProcessingInstruction
  | Node_Comment
  | Node_Document
  | Node_DocumentType
  | Node_DocumentFragment

text \<open>
  The class of a node with the payload that class holds. \<open>Element\<close>: namespace, prefix,
  local name and the attribute nodes; \<open>Attr\<close>: namespace, prefix, local name, value; the
  character data classes: their data; \<open>ProcessingInstruction\<close>: target and data.
  \<open>ShadowRoot\<close> is a class of its own (the source tests \<open>node instanceof ShadowRoot\<close>)
  whose node type is that of a document fragment.
\<close>

datatype node_kind =
    Document
  | DocumentFragment
  | ShadowRoot
  | DocumentType
  | Element "string option" "string option" string "ref list"
  | Attr "string option" "string option" string string
  | Text string
  | CDATASection string
  | Comment string
  | ProcessingInstruction string string

record node =
  kind :: node_kind
  ownerDocument :: "ref option"
  parentNode :: "ref option"
  childNodes :: "ref list"

type_synonym store = "node list"

fun nodeType :: "node_kind \<Rightarrow> node_type" where
  "nodeType Document = Node_Document"
| "nodeType DocumentFragment = Node_DocumentFragment"
| "nodeType ShadowRoot = Node_DocumentFragment"
| "nodeType DocumentType = Node_DocumentType"
| "nodeType (Element ns p l as) = Node_Element"
| "nodeType (Attr ns p l v) = Node_Attribute"
| "nodeType (Text d) = Node_Text"
| "nodeType (CDATASection d) = Node_CData"
| "nodeType (Comment d) = Node_Comment"
| "nodeType (ProcessingInstruction t d) = Node_ProcessingInstruction"

fun attributes :: "node_kind \<Rightarrow> ref list" where
  "attributes (Element ns p l as) = as"
| "attributes k = []"

definition get :: "store \<Rightarrow> ref \<Rightarrow> node option" where
  "get s r = (if r < length s then Some (s ! r) else None)"

definition new_node :: "store \<Rightarrow> node \<Rightarrow> ref \<times> store" where
  "new_node s n = (length s, s @ [n])"

definition nodeType_of :: "store \<Rightarrow> ref \<Rightarrow> node_type option" where
  "nodeType_of s r = map_option (\<lambda>n. nodeType (kind n)) (get s r)"

text \<open>A node as a constructor leaves it: detached, childless, owned by \<open>d\<close>.\<close>

definition detached :: "node_kind \<Rightarrow> ref option \<Rightarrow> node" where
  "detached k d = \<lparr>kind = k, ownerDocument = d, parentNode = None, childNodes = []\<rparr>"

section \<open>Strings\<close>

text \<open>\<open>s.includes(pat)\<close>: \<open>pat\<close> occurs in \<open>s\<close> as a contiguous run.\<close>

fun str_includes :: "string \<Rightarrow> string \<Rightarrow> bool" where
  "str_includes [] pat = (pat = [])"
| "str_includes (c # cs) pat = (take (length pat) (c # cs) = pat \<or> str_includes cs pat)"

text \<open>
  Modelled from the spec: the constant \<open>Utility.XMLSpec.Name\<close>, the regular expression of
  the Name production, which is not among the sources. \<open>XMLSpec_Name s\<close> stands for
  \<open>s.match(Utility.XMLSpec.Name)\<close> being non-null: a name start character (a letter,
  \<open>:\<close> or \<open>_\<close>) followed by name characters (those, digits, \<open>-\<close>, \<open>.\<close> and the middle
  dot). Characters are bytes here, so the letters are those of ASCII and Latin-1.
\<close>

definition NameStartChar :: "char \<Rightarrow> bool" where
  "NameStartChar c =
     (let n = (of_char c :: nat) in
        c = CHR '':'' \<or> (65 \<le> n \<and> n \<le> 90) \<or> c = CHR ''_'' \<or> (97 \<le> n \<and> n \<le> 122)
        \<or> (192 \<le> n \<and> n \<le> 214) \<or> (216 \<le> n \<and> n \<le> 246) \<or> 248 \<le> n)"

definition NameChar :: "char \<Rightarrow> bool" where
  "NameChar c =
     (let n = (of_char c :: nat) in
        NameStartChar c \<or> c = CHR ''-'' \<or> c = CHR ''.'' \<or> (48 \<le> n \<and> n \<le> 57) \<or> n = 183)"

fun XMLSpec_Name :: "string \<Rightarrow> bool" where
  "XMLSpec_Name [] = False"
| "XMLSpec_Name (c # cs) = (NameStartChar c \<and> list_all NameChar cs)"

section \<open>Document: getters\<close>

text \<open>
  Every operation of class \<open>Document\<close> takes the store and the reference \<open>d\<close> of the
  document it is called on (\<open>this\<close>).
\<close>

text \<open>
  \<open>new Document()\<close>: \<open>super(null)\<close>, a node without owner document. The string fields
  of the class (\<open>_URL\<close>, \<open>_origin\<close>, \<open>_compatMode\<close>, \<open>_characterSet\<close>,
  \<open>_contentType\<close>) hold constants that no operation writes; the record leaves them out.
\<close>

definition new_Document :: "store \<Rightarrow> ref \<times> store" where
  "new_Document s = new_node s (detached Document None)"

definition children_of :: "store \<Rightarrow> ref \<Rightarrow> ref list" where
  "children_of s r = (case get s r of None \<Rightarrow> [] | Some n \<Rightarrow> childNodes n)"

definition doctype :: "store \<Rightarrow> ref \<Rightarrow> ref option" where
  "doctype s d = find (\<lambda>child. nodeType_of s child = Some Node_DocumentType) (children_of s d)"

definition documentElement :: "store \<Rightarrow> ref \<Rightarrow> ref option" where
  "documentElement s d = find (\<lambda>child. nodeType_of s child = Some Node_Element) (children_of s d)"

definition getElementById :: "store \<Rightarrow> ref \<Rightarrow> string \<Rightarrow> ref option" where
  "getElementById s d elementId = None"

section \<open>Document: creation\<close>

text \<open>
  The name-taking operations take the match against \<open>Utility.XMLSpec.Name\<close> as the
  parameter \<open>Name\<close>. A thrown exception leaves the store as it was: the result of a failed
  call is the exception alone.
\<close>

definition createElement ::
  "(string \<Rightarrow> bool) \<Rightarrow> store \<Rightarrow> ref \<Rightarrow> string \<Rightarrow> thrown + ref \<times> store" where
  "createElement Name s d localName =
     (if \<not> Name localName then Inl InvalidCharacterError
      else Inr (new_node s (detached (Element None None localName []) (Some d))))"

definition createDocumentFragment :: "store \<Rightarrow> ref \<Rightarrow> ref \<times> store" where
  "createDocumentFragment s d = new_node s (detached DocumentFragment (Some d))"

definition createTextNode :: "store \<Rightarrow> ref \<Rightarrow> string \<Rightarrow> ref \<times> store" where
  "createTextNode s d data = new_node s (detached (Text data) (Some d))"

definition createCDATASection :: "store \<Rightarrow> ref \<Rightarrow> string \<Rightarrow> thrown + ref \<times> store" where
  "createCDATASection s d data =
     (if str_includes data '']]>'' then Inl InvalidCharacterError
      else Inr (new_node s (detached (CDATASection data) (Some d))))"

definition createComment :: "store \<Rightarrow> ref \<Rightarrow> string \<Rightarrow> ref \<times> store" where
  "createComment s d data = new_node s (detached (Comment data) (Some d))"

definition createProcessingInstruction ::
  "(string \<Rightarrow> bool) \<Rightarrow> store \<Rightarrow> ref \<Rightarrow> string \<Rightarrow> string \<Rightarrow> thrown + ref \<times> store" where
  "createProcessingInstruction Name s d target data =
     (if \<not> Name target then Inl InvalidCharacterError
      else if str_includes data ''?>'' then Inl InvalidCharacterError
      else Inr (new_node s (detached (ProcessingInstruction target data) (Some d))))"

definition createAttribute ::
  "(string \<Rightarrow> bool) \<Rightarrow> store \<Rightarrow> ref \<Rightarrow> string \<Rightarrow> thrown + ref \<times> store" where
  "createAttribute Name s d localName =
     (if \<not> Name localName then Inl InvalidCharacterError
      else Inr (new_node s (detached (Attr None None localName '''') (Some d))))"

section \<open>Document: the unsupported surface\<close>

definition createEvent :: "store \<Rightarrow> ref \<Rightarrow> string \<Rightarrow> thrown + unit" where
  "createEvent s d eventInterface = Inl NotSupportedError"

definition createRange :: "store \<Rightarrow> ref \<Rightarrow> thrown + unit" where
  "createRange s d = Inl NotSupportedError"

definition createNodeIterator :: "store \<Rightarrow> ref \<Rightarrow> ref \<Rightarrow> nat \<Rightarrow> 'f option \<Rightarrow> thrown + unit" where
  "createNodeIterator s d root whatToShow nodeFilter = Inl NotSupportedError"

definition createTreeWalker :: "store \<Rightarrow> ref \<Rightarrow> ref \<Rightarrow> nat \<Rightarrow> 'f option \<Rightarrow> thrown + unit" where
  "createTreeWalker s d root whatToShow nodeFilter = Inl NotSupportedError"

definition querySelector :: "store \<Rightarrow> ref \<Rightarrow> string \<Rightarrow> thrown + ref option" where
  "querySelector s d selectors = Inl (ThrownString '''')"

definition querySelectorAll :: "store \<Rightarrow> ref \<Rightarrow> string \<Rightarrow> thrown + ref list" where
  "querySelectorAll s d selectors = Inl (ThrownString '''')"

section \<open>Document: namespace lookup\<close>

text \<open>
  \<open>Element.lookupPrefix\<close> and \<open>Element.lookupNamespaceURI\<close> are not among the sources; the
  document's methods take them as the parameters \<open>Element_lookupPrefix\<close> and
  \<open>Element_lookupNamespaceURI\<close>. \<open>!namespace\<close> holds of \<open>null\<close> and of the empty string.
\<close>

definition lookupPrefix ::
  "(store \<Rightarrow> ref \<Rightarrow> string \<Rightarrow> string option) \<Rightarrow> store \<Rightarrow> ref \<Rightarrow> string option \<Rightarrow> string option" where
  "lookupPrefix Element_lookupPrefix s d namespace =
     (case namespace of
        None \<Rightarrow> None
      | Some ns \<Rightarrow>
          if ns = [] then None
          else (case documentElement s d of
                  Some e \<Rightarrow> Element_lookupPrefix s e ns
                | None \<Rightarrow> None))"

definition lookupNamespaceURI ::
  "(store \<Rightarrow> ref \<Rightarrow> string option \<Rightarrow> string option) \<Rightarrow> store \<Rightarrow> ref \<Rightarrow> string option \<Rightarrow> string option" where
  "lookupNamespaceURI Element_lookupNamespaceURI s d prefix =
     (let prefix = (if prefix = None \<or> prefix = Some [] then None else prefix) in
        case documentElement s d of
          Some e \<Rightarrow> Element_lookupNamespaceURI s e prefix
        | None \<Rightarrow> None)"

section \<open>Tree mutation\<close>

definition update :: "store \<Rightarrow> ref \<Rightarrow> (node \<Rightarrow> node) \<Rightarrow> store" where
  "update s r f = (if r < length s then s[r := f (s ! r)] else s)"

text \<open>
  Modelled from the spec: \<open>Node.removeChild\<close>, which is not among the sources. It fails
  with NotFoundError if \<open>oldChild\<close> is not a child of the node; otherwise it takes the child
  out of the child list, clears its parent and returns it. The owner document stays. (Sibling
  links are positions in the child list.)
\<close>

definition removeChild :: "store \<Rightarrow> ref \<Rightarrow> ref \<Rightarrow> thrown + ref \<times> store" where
  "removeChild s p oldChild =
     (if oldChild \<notin> set (children_of s p) then Inl NotFoundError
      else Inr (oldChild,
        update (update s p (\<lambda>n. n\<lparr>childNodes := remove1 oldChild (childNodes n)\<rparr>))
          oldChild (\<lambda>n. n\<lparr>parentNode := None\<rparr>)))"

text \<open>
  Modelled from the spec: the first check of pre-insertion validity, not among the sources.
  Following parent links from \<open>n\<close> up: is \<open>a\<close> the node \<open>n\<close> or one of its ancestors? The
  walk is given \<open>k\<close> steps; \<open>None\<close> is a walk that did not end within them.
\<close>

fun is_inclusive_ancestor :: "nat \<Rightarrow> store \<Rightarrow> ref \<Rightarrow> ref \<Rightarrow> bool option" where
  "is_inclusive_ancestor 0 s a n = None"
| "is_inclusive_ancestor (Suc k) s a n =
     (if a = n then Some True
      else (case get s n of
              None \<Rightarrow> Some False
            | Some nd \<Rightarrow>
                (case parentNode nd of
                   None \<Rightarrow> Some False
                 | Some p \<Rightarrow> is_inclusive_ancestor k s a p)))"

text \<open>
  Modelled from the spec: which node types a parent of a given node type may hold. The spec
  gives the row of Document (Element, ProcessingInstruction, Comment, DocumentType); the rows
  of the other containers are those of the DOM standard the system reimplements, and leaf
  types hold no children.
\<close>

fun permitted_child :: "node_type \<Rightarrow> node_type \<Rightarrow> bool" where
  "permitted_child Node_Document c =
     (c = Node_Element \<or> c = Node_ProcessingInstruction \<or> c = Node_Comment \<or> c = Node_DocumentType)"
| "permitted_child Node_DocumentFragment c =
     (c = Node_Element \<or> c = Node_Text \<or> c = Node_CData \<or> c = Node_ProcessingInstruction
      \<or> c = Node_Comment)"
| "permitted_child Node_Element c =
     (c = Node_Element \<or> c = Node_Text \<or> c = Node_CData \<or> c = Node_ProcessingInstruction
      \<or> c = Node_Comment)"
| "permitted_child p c = False"

definition is_container :: "node_type \<Rightarrow> bool" where
  "is_container p = (p = Node_Document \<or> p = Node_DocumentFragment \<or> p = Node_Element)"

text \<open>
  Modelled from the spec: the two steps of an insertion, not among the sources. \<open>detach\<close>
  takes \<open>node\<close> out of the child list of its current parent, if it has one (a move, not a
  copy); \<open>link_last\<close> puts \<open>node\<close> last among the children of \<open>p\<close>.
\<close>

definition detach :: "store \<Rightarrow> ref \<Rightarrow> store" where
  "detach s node =
     (case get s node of
        None \<Rightarrow> s
      | Some n \<Rightarrow>
          (case parentNode n of
             None \<Rightarrow> s
           | Some q \<Rightarrow>
               update (update s q (\<lambda>m. m\<lparr>childNodes := remove1 node (childNodes m)\<rparr>))
                 node (\<lambda>m. m\<lparr>parentNode := None\<rparr>)))"

definition link_last :: "store \<Rightarrow> ref \<Rightarrow> ref \<Rightarrow> store" where
  "link_last s p node =
     update (update s p (\<lambda>m. m\<lparr>childNodes := childNodes m @ [node]\<rparr>))
       node (\<lambda>m. m\<lparr>parentNode := Some p\<rparr>)"

text \<open>
  Modelled from the spec: \<open>Node.appendChild\<close>, that is \<open>insertBefore(node, null)\<close>, which is
  not among the sources. Pre-insertion validity fails with HierarchyRequestError when the new
  node is the parent or one of its ancestors, when its type is not a permitted child of the
  parent's type, and when a Document parent already has a document element (a doctype) and
  the new node is an Element (a DocumentType). A new node that has a parent is detached
  first. The children of a DocumentFragment are moved in their order and the fragment is
  left empty; any other node is put last. The inserted node is returned.
\<close>

definition appendChild :: "store \<Rightarrow> ref \<Rightarrow> ref \<Rightarrow> (thrown + ref \<times> store) option" where
  "appendChild s p node =
     (case get s p of
        None \<Rightarrow> None
      | Some pn \<Rightarrow>
     (case get s node of
        None \<Rightarrow> None
      | Some nn \<Rightarrow>
     (case is_inclusive_ancestor (length s) s node p of
        None \<Rightarrow> None
      | Some True \<Rightarrow> Some (Inl HierarchyRequestError)
      | Some False \<Rightarrow>
          if nodeType (kind nn) = Node_DocumentFragment
          then (if \<not> is_container (nodeType (kind pn)) then Some (Inl HierarchyRequestError)
                else Some (Inr (node,
                  update (fold (\<lambda>c t. link_last (detach t c) p c) (childNodes nn) s)
                    node (\<lambda>m. m\<lparr>childNodes := []\<rparr>))))
          else if \<not> permitted_child (nodeType (kind pn)) (nodeType (kind nn))
          then Some (Inl HierarchyRequestError)
          else if nodeType (kind pn) = Node_Document \<and> nodeType (kind nn) = Node_Element
                  \<and> documentElement s p \<noteq> None
          then Some (Inl HierarchyRequestError)
          else if nodeType (kind pn) = Node_Document \<and> nodeType (kind nn) = Node_DocumentType
                  \<and> doctype s p \<noteq> None
          then Some (Inl HierarchyRequestError)
          else Some (Inr (node, link_last (detach s node) p node)))))"

section \<open>Cloning\<close>

text \<open>
  Modelled from the spec: the copy of an element's attribute set. Each attribute node is
  copied as a shallow clone: a new node of the same class and payload, owned by the same
  owner document, without parent.
\<close>

fun clone_attributes :: "store \<Rightarrow> ref list \<Rightarrow> (ref list \<times> store) option" where
  "clone_attributes s [] = Some ([], s)"
| "clone_attributes s (a # as) =
     (case get s a of
        None \<Rightarrow> None
      | Some an \<Rightarrow>
          (case new_node s (detached (kind an) (ownerDocument an)) of
             (a', s1) \<Rightarrow>
               (case clone_attributes s1 as of
                  None \<Rightarrow> None
                | Some (as', s2) \<Rightarrow> Some (a' # as', s2))))"

text \<open>
  Modelled from the spec: the shallow clone of a node of a class other than \<open>Document\<close>
  (\<open>cloneNode\<close> of those classes is not among the sources): a new node of the same class,
  owned by the same owner document, with null parent and the payload copied, for an Element
  with a copy of the attribute set.
\<close>

definition shallow_clone :: "store \<Rightarrow> node \<Rightarrow> (ref \<times> store) option" where
  "shallow_clone s n =
     (case kind n of
        Element ns p l as \<Rightarrow>
          (case clone_attributes s as of
             None \<Rightarrow> None
           | Some (as', s1) \<Rightarrow> Some (new_node s1 (detached (Element ns p l as') (ownerDocument n))))
      | k \<Rightarrow> Some (new_node s (detached k (ownerDocument n))))"

text \<open>
  \<open>node.cloneNode(deep)\<close>, dispatched on the class of the node. For a \<open>Document\<close> it is
  \<open>Document.cloneNode\<close> of \<open>src/dom/Document.ts\<close>: \<open>new Document()\<close>, then, if
  \<open>deep\<close>, for each child in order \<open>child.cloneNode(deep)\<close> and
  \<open>clonedSelf.appendChild(clonedChild)\<close>; \<open>clone_children\<close> is that loop.

  Modelled from the spec: \<open>cloneNode\<close> of the other classes, not among the sources: the
  shallow clone, then, if \<open>deep\<close>, each child cloned in document order and the clones
  appended to the new node, which is the same loop.

  The recursion is given \<open>k\<close> levels; \<open>None\<close> is a call that did not return (or met a
  reference to no node, which the program cannot hold).
\<close>

fun cloneNode_fuel :: "nat \<Rightarrow> store \<Rightarrow> ref \<Rightarrow> bool \<Rightarrow> (thrown + ref \<times> store) option"
and clone_children :: "nat \<Rightarrow> store \<Rightarrow> ref \<Rightarrow> ref list \<Rightarrow> (thrown + store) option" where
  "cloneNode_fuel 0 s r deep = None"
| "cloneNode_fuel (Suc k) s r deep =
     (case get s r of
        None \<Rightarrow> None
      | Some n \<Rightarrow>
          (case (if kind n = Document then Some (new_Document s) else shallow_clone s n) of
             None \<Rightarrow> None
           | Some (clonedSelf, s1) \<Rightarrow>
               if deep
               then (case clone_children k s1 clonedSelf (childNodes n) of
                       None \<Rightarrow> None
                     | Some (Inl e) \<Rightarrow> Some (Inl e)
                     | Some (Inr s2) \<Rightarrow> Some (Inr (clonedSelf, s2)))
               else Some (Inr (clonedSelf, s1))))"
| "clone_children k s clonedSelf [] = Some (Inr s)"
| "clone_children k s clonedSelf (child # rest) =
     (case cloneNode_fuel k s child True of
        None \<Rightarrow> None
      | Some (Inl e) \<Rightarrow> Some (Inl e)
      | Some (Inr (clonedChild, s1)) \<Rightarrow>
          (case appendChild s1 clonedSelf clonedChild of
             None \<Rightarrow> None
           | Some (Inl e) \<Rightarrow> Some (Inl e)
           | Some (Inr (x, s2)) \<Rightarrow> clone_children k s2 clonedSelf rest))"

text \<open>
  A chain of children without a cycle is no longer than the store, so \<open>length s\<close> levels
  are enough for every tree in \<open>s\<close>: with them, \<open>None\<close> is a call that does not return.
\<close>

definition cloneNode :: "store \<Rightarrow> ref \<Rightarrow> bool \<Rightarrow> (thrown + ref \<times> store) option" where
  "cloneNode s r deep = cloneNode_fuel (length s) s r deep"

text \<open>
  \<open>Document.cloneNode\<close> of the older copy of the class (the unnamed source file): the
  arguments are \<open>(document, deep)\<close>, a boolean first argument is taken as \<open>deep\<close>, and the
  result is \<open>new Document()\<close> whatever \<open>deep\<close> is.
\<close>

definition cloneNode_old :: "store \<Rightarrow> ref \<Rightarrow> bool \<Rightarrow> ref \<times> store" where
  "cloneNode_old s d deep =
     (case new_Document s of
        (clonedSelf, s1) \<Rightarrow> (clonedSelf, update s1 clonedSelf (\<lambda>n. n\<lparr>parentNode := None\<rparr>)))"

section \<open>Import and adoption\<close>

text \<open>
  Modelled from the spec: \<open>Utility.Tree.forEachDescendant\<close>, which is not among the
  sources: the callback is applied to the node itself (when \<open>self\<close>) and to every
  descendant, in document order.
\<close>

fun forEachDescendant_fuel :: "nat \<Rightarrow> store \<Rightarrow> ref \<Rightarrow> (store \<Rightarrow> ref \<Rightarrow> store) \<Rightarrow> store option"
and forEach_children :: "nat \<Rightarrow> store \<Rightarrow> ref list \<Rightarrow> (store \<Rightarrow> ref \<Rightarrow> store) \<Rightarrow> store option" where
  "forEachDescendant_fuel 0 s r callback = None"
| "forEachDescendant_fuel (Suc k) s r callback =
     (case callback s r of s1 \<Rightarrow> forEach_children k s1 (children_of s1 r) callback)"
| "forEach_children k s [] callback = Some s"
| "forEach_children k s (c # cs) callback =
     (case forEachDescendant_fuel k s c callback of
        None \<Rightarrow> None
      | Some s1 \<Rightarrow> forEach_children k s1 cs callback)"

definition forEachDescendant ::
  "store \<Rightarrow> ref \<Rightarrow> bool \<Rightarrow> (store \<Rightarrow> ref \<Rightarrow> store) \<Rightarrow> store option" where
  "forEachDescendant s r self callback =
     (if self then forEachDescendant_fuel (length s) s r callback
      else forEach_children (length s) s (children_of s r) callback)"

text \<open>
  The callback of \<open>importNode\<close> in \<open>src/dom/Document.ts\<close> (and of \<open>adoptNode\<close> in the
  older copy): \<open>child._ownerDocument = this\<close> and, for an Element, the same assignment to
  each of its attributes.
\<close>

definition set_ownerDocument :: "ref \<Rightarrow> store \<Rightarrow> ref \<Rightarrow> store" where
  "set_ownerDocument d s r = update s r (\<lambda>n. n\<lparr>ownerDocument := Some d\<rparr>)"

definition reassign :: "ref \<Rightarrow> store \<Rightarrow> ref \<Rightarrow> store" where
  "reassign d s child =
     (case set_ownerDocument d s child of
        s1 \<Rightarrow>
          if nodeType_of s1 child = Some Node_Element
          then fold (\<lambda>attr t. set_ownerDocument d t attr)
                 (case get s1 child of None \<Rightarrow> [] | Some n \<Rightarrow> attributes (kind n)) s1
          else s1)"

definition importNode :: "store \<Rightarrow> ref \<Rightarrow> ref \<Rightarrow> bool \<Rightarrow> (thrown + ref \<times> store) option" where
  "importNode s d node deep =
     (case get s node of
        None \<Rightarrow> None
      | Some n \<Rightarrow>
          if nodeType (kind n) = Node_Document then Some (Inl NotSupportedError)
          else if kind n = ShadowRoot then Some (Inl NotSupportedError)
          else (case cloneNode s node deep of
                  None \<Rightarrow> None
                | Some (Inl e) \<Rightarrow> Some (Inl e)
                | Some (Inr (clonedNode, s1)) \<Rightarrow>
                    (case forEachDescendant s1 clonedNode True (reassign d) of
                       None \<Rightarrow> None
                     | Some s2 \<Rightarrow> Some (Inr (clonedNode, s2)))))"

text \<open>
  Modelled from the spec: \<open>Utility.Tree.Mutation.adoptNode\<close>, which is not among the
  sources. A node that has a parent is detached first (\<open>removeChild\<close> on the parent); then,
  if the node's owner document differs from the target document, the subtree (the node, its
  descendants and the attributes of elements) is walked and the owner document reassigned.
  These are the steps \<open>adoptNode\<close> of the older copy of the class has inline.
\<close>

definition Mutation_adoptNode :: "store \<Rightarrow> ref \<Rightarrow> ref \<Rightarrow> (thrown + store) option" where
  "Mutation_adoptNode s node document =
     (case get s node of
        None \<Rightarrow> None
      | Some n \<Rightarrow>
          (case (case parentNode n of
                   None \<Rightarrow> Inr (node, s)
                 | Some p \<Rightarrow> removeChild s p node) of
             Inl e \<Rightarrow> Some (Inl e)
           | Inr (x, s1) \<Rightarrow>
               if Some document \<noteq> ownerDocument n
               then map_option Inr (forEachDescendant s1 node True (reassign document))
               else Some (Inr s1)))"

definition adoptNode :: "store \<Rightarrow> ref \<Rightarrow> ref \<Rightarrow> (thrown + ref \<times> store) option" where
  "adoptNode s d node =
     (case get s node of
        None \<Rightarrow> None
      | Some n \<Rightarrow>
          if nodeType (kind n) = Node_Document then Some (Inl NotSupportedError)
          else if kind n = ShadowRoot then Some (Inl HierarchyRequestError)
          else (case Mutation_adoptNode s node d of
                  None \<Rightarrow> None
                | Some (Inl e) \<Rightarrow> Some (Inl e)
                | Some (Inr s1) \<Rightarrow> Some (Inr (node, s1))))"

text \<open>
  \<open>adoptNode\<close> of the older copy of the class (the unnamed source file), which has the
  steps inline: the Document guard, \<open>oldDocument = node.ownerDocument\<close>, \<open>removeChild\<close> on
  the parent if there is one, and, if the document is not \<open>oldDocument\<close>,
  \<open>node.ownerDocument = this\<close> followed by the walk with the callback above.

  Modelled from the spec: \<open>Utility.forEachDescendant(node, callback)\<close> of that copy, not
  among the sources, taken as the walk the spec words (self, descendants, element
  attributes).
\<close>

definition adoptNode_old :: "store \<Rightarrow> ref \<Rightarrow> ref \<Rightarrow> (thrown + ref \<times> store) option" where
  "adoptNode_old s d node =
     (case get s node of
        None \<Rightarrow> None
      | Some n \<Rightarrow>
          if nodeType (kind n) = Node_Document then Some (Inl NotSupportedError)
          else (case (case parentNode n of
                        None \<Rightarrow> Inr (node, s)
                      | Some p \<Rightarrow> removeChild s p node) of
                  Inl e \<Rightarrow> Some (Inl e)
                | Inr (x, s1) \<Rightarrow>
                    if Some d \<noteq> ownerDocument n
                    then (case forEachDescendant (set_ownerDocument d s1 node) node True (reassign d) of
                            None \<Rightarrow> None
                          | Some s2 \<Rightarrow> Some (Inr (node, s2)))
                    else Some (Inr (node, s1))))"

section \<open>Example stores\<close>

text \<open>
  A document (at 0) and a detached element it created (at 1); and the same two nodes after
  \<open>appendChild\<close> has made the element the document's child.
\<close>

definition store_detached_root :: store where
  "store_detached_root =
     [\<lparr>kind = Document, ownerDocument = None, parentNode = None, childNodes = []\<rparr>,
      \<lparr>kind = Element None None ''root'' [], ownerDocument = Some 0, parentNode = None,
         childNodes = []\<rparr>]"

definition store_attached_root :: store where
  "store_attached_root =
     [\<lparr>kind = Document, ownerDocument = None, parentNode = None, childNodes = [1]\<rparr>,
      \<lparr>kind = Element None None ''root'' [], ownerDocument = Some 0, parentNode = Some 0,
         childNodes = []\<rparr>]"

section \<open>Reading the store\<close>

definition kind_of :: "store \<Rightarrow> ref \<Rightarrow> node_kind option" where
  "kind_of s r = map_option kind (get s r)"

definition parentNode_of :: "store \<Rightarrow> ref \<Rightarrow> ref option" where
  "parentNode_of s r = (case get s r of None \<Rightarrow> None | Some n \<Rightarrow> parentNode n)"

definition ownerDocument_of :: "store \<Rightarrow> ref \<Rightarrow> ref option" where
  "ownerDocument_of s r = (case get s r of None \<Rightarrow> None | Some n \<Rightarrow> ownerDocument n)"

definition attributes_of :: "store \<Rightarrow> ref \<Rightarrow> ref list" where
  "attributes_of s r = (case get s r of None \<Rightarrow> [] | Some n \<Rightarrow> attributes (kind n))"

text \<open>The subtree of \<open>r\<close>: the node itself and every descendant, along child lists.\<close>

inductive_set subtree :: "store \<Rightarrow> ref \<Rightarrow> ref set" for s :: store and r :: ref where
  self: "r \<in> subtree s r"
| child: "x \<in> subtree s r \<Longrightarrow> c \<in> set (children_of s x) \<Longrightarrow> c \<in> subtree s r"

section \<open>Well-formed trees\<close>

text \<open>
  The data model's invariants, as far as the operations below rely on them, for the tree
  under \<open>r\<close>. \<open>wf_tree k s r\<close>: the tree has no cycle and fewer than \<open>k\<close> levels, and
  every node and attribute reference in it points to a node. \<open>valid_tree k s r\<close> asks in
  addition that the attributes are \<open>Attr\<close> nodes, that every child is of a type its parent
  permits, and that a Document has at most one Element child and at most one DocumentType
  child.
\<close>

fun wf_tree :: "nat \<Rightarrow> store \<Rightarrow> ref \<Rightarrow> bool" where
  "wf_tree 0 s r = False"
| "wf_tree (Suc k) s r =
     (case get s r of
        None \<Rightarrow> False
      | Some n \<Rightarrow>
          list_all (\<lambda>a. a < length s) (attributes (kind n))
          \<and> list_all (wf_tree k s) (childNodes n))"

definition count_type :: "store \<Rightarrow> node_type \<Rightarrow> ref list \<Rightarrow> nat" where
  "count_type s t cs = length (filter (\<lambda>c. nodeType_of s c = Some t) cs)"

fun valid_tree :: "nat \<Rightarrow> store \<Rightarrow> ref \<Rightarrow> bool" where
  "valid_tree 0 s r = False"
| "valid_tree (Suc k) s r =
     (case get s r of
        None \<Rightarrow> False
      | Some n \<Rightarrow>
          list_all (\<lambda>a. nodeType_of s a = Some Node_Attribute) (attributes (kind n))
          \<and> list_all (\<lambda>c. (case nodeType_of s c of
                              None \<Rightarrow> False
                            | Some t \<Rightarrow> permitted_child (nodeType (kind n)) t)
                          \<and> valid_tree k s c) (childNodes n)
          \<and> (if nodeType (kind n) = Node_Document
              then count_type s Node_Element (childNodes n) \<le> 1
                   \<and> count_type s Node_DocumentType (childNodes n) \<le> 1
              else True))"

section \<open>The shape of a tree\<close>

text \<open>
  What a clone shares with its original: the class and payload of every node, the payloads
  of its attributes, and the children in their order. Identity, parent and owner document
  are left out, and so are the references held in an element's attribute list (\<open>erase\<close>).
\<close>

fun erase :: "node_kind \<Rightarrow> node_kind" where
  "erase (Element ns p l as) = Element ns p l []"
| "erase k = k"

datatype shape = Shape node_kind "node_kind option list" "shape list"

fun shape_fuel :: "nat \<Rightarrow> store \<Rightarrow> ref \<Rightarrow> shape option"
and shapes_fuel :: "nat \<Rightarrow> store \<Rightarrow> ref list \<Rightarrow> shape list option" where
  "shape_fuel 0 s r = None"
| "shape_fuel (Suc k) s r =
     (case get s r of
        None \<Rightarrow> None
      | Some n \<Rightarrow>
          (case shapes_fuel k s (childNodes n) of
             None \<Rightarrow> None
           | Some ts \<Rightarrow> Some (Shape (erase (kind n)) (map (kind_of s) (attributes (kind n))) ts)))"
| "shapes_fuel k s [] = Some []"
| "shapes_fuel k s (c # cs) =
     (case shape_fuel k s c of
        None \<Rightarrow> None
      | Some t \<Rightarrow>
          (case shapes_fuel k s cs of
             None \<Rightarrow> None
           | Some ts \<Rightarrow> Some (t # ts)))"

definition shape_of :: "store \<Rightarrow> ref \<Rightarrow> shape option" where
  "shape_of s r = shape_fuel (length s) s r"

section \<open>Invariants of the proofs\<close>

text \<open>
  \<open>extends s s'\<close>: the store \<open>s'\<close> is \<open>s\<close> with records added, every record of \<open>s\<close>
  unchanged. \<open>ordered b s\<close> and \<open>attrs_fresh b s\<close>: the nodes from index \<open>b\<close> on (those
  a clone has added) have their children after themselves and their attributes from \<open>b\<close> on.
\<close>

definition extends :: "store \<Rightarrow> store \<Rightarrow> bool" where
  "extends s s' \<longleftrightarrow> length s \<le> length s' \<and> (\<forall>r < length s. s' ! r = s ! r)"

definition ordered :: "nat \<Rightarrow> store \<Rightarrow> bool" where
  "ordered b s \<longleftrightarrow>
     (\<forall>y. b \<le> y \<and> y < length s \<longrightarrow> (\<forall>c \<in> set (childNodes (s ! y)). y < c \<and> c < length s))"

definition attrs_fresh :: "nat \<Rightarrow> store \<Rightarrow> bool" where
  "attrs_fresh b s \<longleftrightarrow>
     (\<forall>y. b \<le> y \<and> y < length s \<longrightarrow>
        (\<forall>a \<in> set (attributes (kind (s ! y))). b \<le> a \<and> a < length s))"

text \<open>
  What one call of \<open>cloneNode\<close> (from store \<open>s\<close> to the clone \<open>c\<close> in \<open>s'\<close>, of the
  node \<open>r\<close> of the first store \<open>s0\<close>) and one run of its loop over the children leave.
\<close>

definition clone_post :: "nat \<Rightarrow> store \<Rightarrow> ref \<Rightarrow> store \<Rightarrow> ref \<Rightarrow> store \<Rightarrow> bool \<Rightarrow> bool" where
  "clone_post k s0 r s c s' deep \<longleftrightarrow>
     extends s s' \<and> length s \<le> c \<and> c < length s' \<and> parentNode (s' ! c) = None
     \<and> erase (kind (s' ! c)) = erase (kind (s0 ! r))
     \<and> map (kind_of s') (attributes (kind (s' ! c))) = map (kind_of s0) (attributes (kind (s0 ! r)))
     \<and> ordered (length s0) s' \<and> attrs_fresh (length s0) s'
     \<and> (if deep then shape_fuel k s' c = shape_fuel k s0 r else childNodes (s' ! c) = [])"

definition loop_post :: "nat \<Rightarrow> store \<Rightarrow> store \<Rightarrow> ref \<Rightarrow> ref list \<Rightarrow> store \<Rightarrow> ref list \<Rightarrow> bool" where
  "loop_post k s0 s cself cs s' cs' \<longleftrightarrow>
     length s \<le> length s'
     \<and> (\<forall>y < length s. y \<noteq> cself \<longrightarrow> s' ! y = s ! y)
     \<and> s' ! cself = (s ! cself)\<lparr>childNodes := childNodes (s ! cself) @ cs'\<rparr>
     \<and> length cs' = length cs
     \<and> (\<forall>c' \<in> set cs'. length s \<le> c' \<and> c' < length s' \<and> parentNode (s' ! c') = Some cself)
     \<and> shapes_fuel k s' cs' = shapes_fuel k s0 cs
     \<and> ordered (length s0) s' \<and> attrs_fresh (length s0) s'"

text \<open>
  What the walk of \<open>importNode\<close> and \<open>adoptNode\<close> does to a store: nothing but owner
  documents change, and they change to \<open>d\<close> (\<open>own_step\<close>); a node is \<open>owned\<close> when it and
  its attributes belong to \<open>d\<close>; the walk from \<open>r\<close> writes to the subtree of \<open>r\<close> and to
  the attributes of its nodes (\<open>touched\<close>).
\<close>

definition own_step :: "ref \<Rightarrow> store \<Rightarrow> store \<Rightarrow> bool" where
  "own_step d s s' \<longleftrightarrow>
     length s' = length s
     \<and> (\<forall>y < length s. kind (s' ! y) = kind (s ! y) \<and> childNodes (s' ! y) = childNodes (s ! y)
            \<and> parentNode (s' ! y) = parentNode (s ! y)
            \<and> (ownerDocument (s' ! y) = ownerDocument (s ! y) \<or> ownerDocument (s' ! y) = Some d))"

definition owned :: "ref \<Rightarrow> store \<Rightarrow> ref \<Rightarrow> bool" where
  "owned d s x \<longleftrightarrow>
     ownerDocument_of s x = Some d
     \<and> (\<forall>a \<in> set (attributes_of s x). ownerDocument_of s a = Some d)"

definition touched :: "store \<Rightarrow> ref \<Rightarrow> ref set" where
  "touched s r = subtree s r \<union> {a. \<exists>x \<in> subtree s r. a \<in> set (attributes_of s x)}"

definition walk_post :: "ref \<Rightarrow> store \<Rightarrow> ref set \<Rightarrow> ref set \<Rightarrow> store \<Rightarrow> bool" where
  "walk_post d s visited changed s' \<longleftrightarrow>
     own_step d s s' \<and> (\<forall>x \<in> visited. owned d s' x)
     \<and> (\<forall>y < length s. y \<notin> changed \<longrightarrow> s' ! y = s ! y)"

text \<open>
  Two documents: an empty one at 0, and at 1 the document of
  \<open><root a="v">hi<b/></root>\<close> (the element at 2, its attribute at 3, the text at 4, the
  inner element at 5).
\<close>

definition store_two_documents :: store where
  "store_two_documents =
     [\<lparr>kind = Document, ownerDocument = None, parentNode = None, childNodes = []\<rparr>,
      \<lparr>kind = Document, ownerDocument = None, parentNode = None, childNodes = [2]\<rparr>,
      \<lparr>kind = Element None None ''root'' [3], ownerDocument = Some 1, parentNode = Some 1,
         childNodes = [4, 5]\<rparr>,
      \<lparr>kind = Attr None None ''a'' ''v'', ownerDocument = Some 1, parentNode = None,
         childNodes = []\<rparr>,
      \<lparr>kind = Text ''hi'', ownerDocument = Some 1, parentNode = Some 2, childNodes = []\<rparr>,
      \<lparr>kind = Element None None ''b'' [], ownerDocument = Some 1, parentNode = Some 2,
         childNodes = []\<rparr>]"


section \<open>Strings: what \<open>includes\<close> decides\<close>

lemma str_includes_iff: "str_includes s pat \<longleftrightarrow> (\<exists>pre suf. s = pre @ pat @ suf)"
proof (induction s)
  case Nil
  then show ?case by auto
next
  case (Cons c cs)
  show ?case
  proof
    assume "str_includes (c # cs) pat"
    then consider "take (length pat) (c # cs) = pat" | "str_includes cs pat"
      by auto
    then show "\<exists>pre suf. c # cs = pre @ pat @ suf"
    proof cases
      case 1
      then have "c # cs = [] @ pat @ drop (length pat) (c # cs)"
        by (metis append_Nil append_take_drop_id)
      then show ?thesis by blast
    next
      case 2
      then obtain pre suf where "cs = pre @ pat @ suf"
        using Cons.IH by blast
      then have "c # cs = (c # pre) @ pat @ suf" by simp
      then show ?thesis by blast
    qed
  next
    assume "\<exists>pre suf. c # cs = pre @ pat @ suf"
    then obtain pre suf where e: "c # cs = pre @ pat @ suf" by blast
    show "str_includes (c # cs) pat"
    proof (cases pre)
      case Nil
      then have "take (length pat) (c # cs) = pat"
        using e by (metis append_Nil append_eq_conv_conj)
      then show ?thesis by simp
    next
      case (Cons p ps)
      then have "cs = ps @ pat @ suf" using e by simp
      then have "str_includes cs pat" using Cons.IH by blast
      then show ?thesis by simp
    qed
  qed
qed

section \<open>Creation operations\<close>

text \<open>
  C3. A name that does not match the Name grammar makes \<open>createElement\<close> and
  \<open>createAttribute\<close> throw InvalidCharacterError; the result is the exception alone, no
  node and no new store. This holds whatever the grammar is; with the Name production,
  \<open>createElement("in valid")\<close> throws InvalidCharacterError.
\<close>

theorem create_invalid_name:
  "(\<not> Name localName \<longrightarrow>
      createElement Name s d localName = Inl InvalidCharacterError
      \<and> createAttribute Name s d localName = Inl InvalidCharacterError)
   \<and> \<not> XMLSpec_Name ''in valid''
   \<and> createElement XMLSpec_Name s d ''in valid'' = Inl InvalidCharacterError"
  by (simp add: createElement_def createAttribute_def NameChar_def NameStartChar_def)

theorem create_invalid_name_witness:
  "\<not> XMLSpec_Name ''9lives''
   \<and> createElement XMLSpec_Name [detached Document None] 0 ''9lives'' = Inl InvalidCharacterError
   \<and> createAttribute XMLSpec_Name [detached Document None] 0 ''9lives'' = Inl InvalidCharacterError
   \<and> createElement XMLSpec_Name [detached Document None] 0 ''in valid'' = Inl InvalidCharacterError"
proof -
  have n: "\<not> XMLSpec_Name ''9lives''"
    by (simp add: NameStartChar_def)
  show ?thesis
    using n create_invalid_name [of XMLSpec_Name "''9lives''" "[detached Document None]" 0]
    by blast
qed

text \<open>
  C8. \<open>createCDATASection(data)\<close> throws InvalidCharacterError exactly when \<open>data\<close>
  contains \<open>]]>\<close>. Otherwise it returns a reference that was unused before, and the store
  is the old one with one record more: a CDATASection holding \<open>data\<close>, owned by the
  document, without parent and without children.
\<close>

theorem createCDATASection_terminator:
  "(createCDATASection s d data = Inl InvalidCharacterError
      \<longleftrightarrow> (\<exists>pre suf. data = pre @ '']]>'' @ suf))
   \<and> ((\<nexists>pre suf. data = pre @ '']]>'' @ suf) \<longrightarrow>
        get s (length s) = None
        \<and> createCDATASection s d data =
            Inr (length s,
                 s @ [\<lparr>kind = CDATASection data, ownerDocument = Some d,
                        parentNode = None, childNodes = []\<rparr>]))"
  by (simp add: createCDATASection_def str_includes_iff new_node_def detached_def get_def)

theorem createCDATASection_terminator_witness:
  "createCDATASection [detached Document None] 0 ''a]]>b'' = Inl InvalidCharacterError
   \<and> createCDATASection [detached Document None] 0 ''a]] >b'' =
       Inr (1, [detached Document None, detached (CDATASection ''a]] >b'') (Some 0)])"
proof -
  have a: "\<exists>pre suf. ''a]]>b'' = pre @ '']]>'' @ suf"
    using str_includes_iff [of "''a]]>b''" "'']]>''"] by simp
  have b: "\<nexists>pre suf. ''a]] >b'' = pre @ '']]>'' @ suf"
    using str_includes_iff [of "''a]] >b''" "'']]>''"] by simp
  show ?thesis
    using a b createCDATASection_terminator [of "[detached Document None]" 0 "''a]]>b''"]
      createCDATASection_terminator [of "[detached Document None]" 0 "''a]] >b''"]
    by (simp add: detached_def)
qed

text \<open>
  C9. \<open>createProcessingInstruction(target, data)\<close> throws InvalidCharacterError exactly
  when \<open>target\<close> does not match the Name grammar or \<open>data\<close> contains \<open>?>\<close>. Otherwise it
  returns a reference that was unused before, and the store is the old one with one record
  more: a ProcessingInstruction with that target and data, owned by the document, without
  parent and without children.
\<close>

theorem createProcessingInstruction_checks:
  "(createProcessingInstruction Name s d target data = Inl InvalidCharacterError
      \<longleftrightarrow> (\<not> Name target \<or> (\<exists>pre suf. data = pre @ ''?>'' @ suf)))
   \<and> (Name target \<and> (\<nexists>pre suf. data = pre @ ''?>'' @ suf) \<longrightarrow>
        get s (length s) = None
        \<and> createProcessingInstruction Name s d target data =
            Inr (length s,
                 s @ [\<lparr>kind = ProcessingInstruction target data, ownerDocument = Some d,
                        parentNode = None, childNodes = []\<rparr>]))"
  by (simp add: createProcessingInstruction_def str_includes_iff new_node_def detached_def get_def)

theorem createProcessingInstruction_checks_witness:
  "createProcessingInstruction XMLSpec_Name [detached Document None] 0 ''x y'' ''d'' =
     Inl InvalidCharacterError
   \<and> createProcessingInstruction XMLSpec_Name [detached Document None] 0 ''xml'' ''a?>b'' =
       Inl InvalidCharacterError
   \<and> createProcessingInstruction XMLSpec_Name [detached Document None] 0 ''xml'' ''a? >b'' =
       Inr (1, [detached Document None, detached (ProcessingInstruction ''xml'' ''a? >b'') (Some 0)])"
proof -
  have n1: "\<not> XMLSpec_Name ''x y''"
    by (simp add: NameStartChar_def NameChar_def)
  have n2: "XMLSpec_Name ''xml''"
    by (simp add: NameStartChar_def NameChar_def)
  have a: "\<exists>pre suf. ''a?>b'' = pre @ ''?>'' @ suf"
    using str_includes_iff [of "''a?>b''" "''?>''"] by simp
  have b: "\<nexists>pre suf. ''a? >b'' = pre @ ''?>'' @ suf"
    using str_includes_iff [of "''a? >b''" "''?>''"] by simp
  show ?thesis
    using n1 n2 a b
      createProcessingInstruction_checks [of XMLSpec_Name "[detached Document None]" 0 "''x y''" "''d''"]
      createProcessingInstruction_checks [of XMLSpec_Name "[detached Document None]" 0 "''xml''" "''a?>b''"]
      createProcessingInstruction_checks [of XMLSpec_Name "[detached Document None]" 0 "''xml''" "''a? >b''"]
    by (simp add: detached_def)
qed

section \<open>The unsupported surface\<close>

text \<open>
  C4. The four creation operations do what the claim says. \<open>querySelector\<close> and
  \<open>querySelectorAll\<close>, as the class declares them, do not: called with the selector
  \<open>a\<close> each throws the empty string, which is not NotSupportedError, where
  \<open>createEvent\<close>, under the same doc comment, throws NotSupportedError.
\<close>

theorem querySelector_throws_empty_string:
  "querySelector [detached Document None] 0 ''a'' = Inl (ThrownString [])
   \<and> querySelectorAll [detached Document None] 0 ''a'' = Inl (ThrownString [])
   \<and> querySelector [detached Document None] 0 ''a'' \<noteq> Inl NotSupportedError
   \<and> querySelectorAll [detached Document None] 0 ''a'' \<noteq> Inl NotSupportedError
   \<and> createEvent [detached Document None] 0 ''a'' = Inl NotSupportedError"
  by (simp add: querySelector_def querySelectorAll_def createEvent_def)

text \<open>
  What the six operations do on every input: none of them returns a value. The first four
  throw NotSupportedError; the two selector operations run the placeholder body
  \<open>throw ""\<close>.
\<close>

theorem unsupported_surface_throws:
  "createEvent s d eventInterface = Inl NotSupportedError
   \<and> createRange s d = Inl NotSupportedError
   \<and> createNodeIterator s d root whatToShow nodeFilter = Inl NotSupportedError
   \<and> createTreeWalker s d root whatToShow nodeFilter = Inl NotSupportedError
   \<and> querySelector s d selectors = Inl (ThrownString [])
   \<and> querySelectorAll s d selectors = Inl (ThrownString [])"
  by (simp add: createEvent_def createRange_def createNodeIterator_def createTreeWalker_def
      querySelector_def querySelectorAll_def)

section \<open>Getters\<close>

text \<open>
  C10. \<open>getElementById\<close> returns null for every id, in every store, on every document.
\<close>

theorem getElementById_null: "getElementById s d elementId = None"
  by (simp add: getElementById_def)

text \<open>
  C6. In every store, \<open>documentElement\<close> is null exactly when no child of the document is
  an Element, and is \<open>e\<close> exactly when \<open>e\<close> is the child at the first position that holds
  an Element; \<open>doctype\<close> likewise with DocumentType. Both are functions of the current
  store alone, so after a mutation they are the answer for the mutated child list.
\<close>

theorem documentElement_doctype_scan:
  "(documentElement s d = None
      \<longleftrightarrow> (\<forall>c \<in> set (children_of s d). nodeType_of s c \<noteq> Some Node_Element))
   \<and> (documentElement s d = Some e
      \<longleftrightarrow> (\<exists>i < length (children_of s d). children_of s d ! i = e
             \<and> nodeType_of s e = Some Node_Element
             \<and> (\<forall>j < i. nodeType_of s (children_of s d ! j) \<noteq> Some Node_Element)))
   \<and> (doctype s d = None
      \<longleftrightarrow> (\<forall>c \<in> set (children_of s d). nodeType_of s c \<noteq> Some Node_DocumentType))
   \<and> (doctype s d = Some t
      \<longleftrightarrow> (\<exists>i < length (children_of s d). children_of s d ! i = t
             \<and> nodeType_of s t = Some Node_DocumentType
             \<and> (\<forall>j < i. nodeType_of s (children_of s d ! j) \<noteq> Some Node_DocumentType)))"
  unfolding documentElement_def doctype_def find_None_iff find_Some_iff
  by blast

section \<open>Namespace lookup on a document\<close>

text \<open>
  C7. \<open>lookupPrefix\<close> returns null for a null and for an empty namespace. For any other
  namespace it is null when the document has no document element and otherwise what
  \<open>lookupPrefix\<close> of the document element returns. \<open>lookupNamespaceURI\<close> is null when the
  document has no document element and otherwise what \<open>lookupNamespaceURI\<close> of the document
  element returns, asked with null in place of an empty prefix.
\<close>

theorem document_lookup_delegates:
  "lookupPrefix Element_lookupPrefix s d None = None
   \<and> lookupPrefix Element_lookupPrefix s d (Some []) = None
   \<and> (ns \<noteq> [] \<longrightarrow>
        lookupPrefix Element_lookupPrefix s d (Some ns) =
          (case documentElement s d of
             None \<Rightarrow> None
           | Some e \<Rightarrow> Element_lookupPrefix s e ns))
   \<and> lookupNamespaceURI Element_lookupNamespaceURI s d p =
        (case documentElement s d of
           None \<Rightarrow> None
         | Some e \<Rightarrow> Element_lookupNamespaceURI s e (if p = Some [] then None else p))"
  by (auto simp: lookupPrefix_def lookupNamespaceURI_def split: option.splits)

theorem document_lookup_delegates_witness:
  "lookupPrefix (\<lambda>s e ns. Some ''n'') store_attached_root 0 (Some ''myns'') = Some ''n''
   \<and> lookupPrefix (\<lambda>s e ns. Some ''n'') store_detached_root 0 (Some ''myns'') = None
   \<and> lookupPrefix (\<lambda>s e ns. Some ''n'') store_attached_root 0 (Some []) = None
   \<and> lookupNamespaceURI (\<lambda>s e p. case p of None \<Rightarrow> Some ''default'' | Some x \<Rightarrow> Some x)
        store_attached_root 0 (Some []) = Some ''default''
   \<and> lookupNamespaceURI (\<lambda>s e p. case p of None \<Rightarrow> Some ''default'' | Some x \<Rightarrow> Some x)
        store_detached_root 0 (Some ''n'') = None"
proof -
  have ne: "''myns'' \<noteq> []" by simp
  have a: "documentElement store_attached_root 0 = Some 1"
    by (simp add: documentElement_def children_of_def get_def nodeType_of_def store_attached_root_def)
  have b: "documentElement store_detached_root 0 = None"
    by (simp add: documentElement_def children_of_def get_def store_detached_root_def)
  show ?thesis
    using ne a b
      document_lookup_delegates [of "\<lambda>s e ns. Some ''n''" store_attached_root 0 "''myns''"
        "\<lambda>s e p. case p of None \<Rightarrow> Some ''default'' | Some x \<Rightarrow> Some x" "Some []"]
      document_lookup_delegates [of "\<lambda>s e ns. Some ''n''" store_detached_root 0 "''myns''"
        "\<lambda>s e p. case p of None \<Rightarrow> Some ''default'' | Some x \<Rightarrow> Some x" "Some ''n''"]
    by simp
qed

theorem documentElement_doctype_scan_witness:
  "documentElement store_detached_root 0 = None
   \<and> appendChild store_detached_root 0 1 = Some (Inr (1, store_attached_root))
   \<and> documentElement store_attached_root 0 = Some 1
   \<and> doctype store_attached_root 0 = None"
proof -
  have c0: "children_of store_detached_root 0 = []"
    by (simp add: children_of_def get_def store_detached_root_def)
  have c1: "children_of store_attached_root 0 = [1]"
    by (simp add: children_of_def get_def store_attached_root_def)
  have t1: "nodeType_of store_attached_root 1 = Some Node_Element"
    by (simp add: nodeType_of_def get_def store_attached_root_def)
  have app: "appendChild store_detached_root 0 1 = Some (Inr (1, store_attached_root))"
    by (simp add: appendChild_def get_def store_detached_root_def store_attached_root_def
        documentElement_def children_of_def link_last_def detach_def update_def)
  have e0: "documentElement store_detached_root 0 = None"
    using documentElement_doctype_scan [of store_detached_root 0 1 1] c0 by simp
  have e1: "documentElement store_attached_root 0 = Some 1"
    using documentElement_doctype_scan [of store_attached_root 0 1 1] c1 t1 by simp
  have d1: "doctype store_attached_root 0 = None"
    using documentElement_doctype_scan [of store_attached_root 0 1 1] c1 t1 by simp
  show ?thesis
    using e0 app e1 d1 by simp
qed

section \<open>The store\<close>

lemma get_Some_iff: "get s r = Some n \<longleftrightarrow> r < length s \<and> s ! r = n"
  by (auto simp: get_def)

lemma get_None_iff: "get s r = None \<longleftrightarrow> length s \<le> r"
  by (auto simp: get_def)

lemma get_live: "r < length s \<Longrightarrow> get s r = Some (s ! r)"
  by (simp add: get_def)

lemma length_update [simp]: "length (update s r f) = length s"
  by (simp add: update_def)

lemma nth_update: "x < length s \<Longrightarrow> update s r f ! x = (if x = r then f (s ! x) else s ! x)"
  by (simp add: update_def)

lemma extends_len: "extends s s' \<Longrightarrow> length s \<le> length s'"
  unfolding extends_def by blast

lemma extends_nth: "extends s s' \<Longrightarrow> r < length s \<Longrightarrow> s' ! r = s ! r"
  unfolding extends_def by blast

lemma extends_refl: "extends s s"
  by (simp add: extends_def)

lemma extends_trans: "extends s t \<Longrightarrow> extends t u \<Longrightarrow> extends s u"
  by (auto simp: extends_def)

lemma extends_append: "extends s (s @ t)"
  by (simp add: extends_def nth_append)

lemma extends_take: "extends s s' \<longleftrightarrow> length s \<le> length s' \<and> take (length s) s' = s"
  by (auto simp: extends_def list_eq_iff_nth_eq)

lemma extends_get: "extends s s' \<Longrightarrow> r < length s \<Longrightarrow> get s' r = get s r"
  by (simp add: extends_def get_def)

lemma extends_nodeType_of: "extends s s' \<Longrightarrow> r < length s \<Longrightarrow> nodeType_of s' r = nodeType_of s r"
  by (simp add: nodeType_of_def extends_get)

lemma nodeType_of_live: "nodeType_of s r = Some t \<Longrightarrow> r < length s"
  by (auto simp: nodeType_of_def get_def split: if_splits)

lemma nodeType_of_nth: "r < length s \<Longrightarrow> nodeType_of s r = Some (nodeType (kind (s ! r)))"
  by (simp add: nodeType_of_def get_def)

lemma length_link_last [simp]: "length (link_last s p c) = length s"
  by (simp add: link_last_def)

lemma nth_link_last:
  "x < length s \<Longrightarrow> p \<noteq> c \<Longrightarrow>
     link_last s p c ! x =
       (if x = c then (s ! x)\<lparr>parentNode := Some p\<rparr>
        else if x = p then (s ! x)\<lparr>childNodes := childNodes (s ! x) @ [c]\<rparr>
        else s ! x)"
  by (simp add: link_last_def nth_update)

lemma detach_no_parent: "c < length s \<Longrightarrow> parentNode (s ! c) = None \<Longrightarrow> detach s c = s"
  by (simp add: detach_def get_def)

lemma count_type_zero_find:
  "count_type s t cs = 0 \<Longrightarrow> find (\<lambda>c. nodeType_of s c = Some t) cs = None"
  by (simp add: count_type_def find_None_iff filter_empty_conv)

lemma appendChild_fresh:
  assumes p: "p < length s" and c: "c < length s" and ne: "p \<noteq> c"
    and pp: "parentNode (s ! p) = None" and cp: "parentNode (s ! c) = None"
    and perm: "permitted_child (nodeType (kind (s ! p))) (nodeType (kind (s ! c)))"
    and de: "nodeType (kind (s ! p)) = Node_Document \<Longrightarrow> nodeType (kind (s ! c)) = Node_Element
               \<Longrightarrow> count_type s Node_Element (childNodes (s ! p)) = 0"
    and dt: "nodeType (kind (s ! p)) = Node_Document \<Longrightarrow> nodeType (kind (s ! c)) = Node_DocumentType
               \<Longrightarrow> count_type s Node_DocumentType (childNodes (s ! p)) = 0"
  shows "appendChild s p c = Some (Inr (c, link_last s p c))"
proof -
  obtain k where k: "length s = Suc k"
    using p by (cases "length s") auto
  have anc: "is_inclusive_ancestor (length s) s c p = Some False"
    using ne p pp by (simp add: k get_def)
  have nf: "nodeType (kind (s ! c)) \<noteq> Node_DocumentFragment"
    using perm by (cases "nodeType (kind (s ! p))") auto
  have e: "nodeType (kind (s ! p)) = Node_Document \<Longrightarrow> nodeType (kind (s ! c)) = Node_Element
             \<Longrightarrow> documentElement s p = None"
    using de p by (simp add: documentElement_def children_of_def get_def count_type_zero_find)
  have t: "nodeType (kind (s ! p)) = Node_Document \<Longrightarrow> nodeType (kind (s ! c)) = Node_DocumentType
             \<Longrightarrow> doctype s p = None"
    using dt p by (simp add: doctype_def children_of_def get_def count_type_zero_find)
  show ?thesis
    using p c anc nf perm e t cp
    by (auto simp: appendChild_def get_def detach_no_parent)
qed

lemma clone_attributes_total:
  "\<forall>a \<in> set as. a < length s \<Longrightarrow>
     \<exists>s'. clone_attributes s as = Some ([length s ..< length s + length as], s')
          \<and> extends s s' \<and> length s' = length s + length as
          \<and> (\<forall>i < length as. s' ! (length s + i) =
                detached (kind (s ! (as ! i))) (ownerDocument (s ! (as ! i))))"
proof (induction as arbitrary: s)
  case Nil
  then show ?case by (simp add: extends_refl)
next
  case (Cons a as)
  let ?n = "detached (kind (s ! a)) (ownerDocument (s ! a))"
  let ?s1 = "s @ [?n]"
  have a: "a < length s" using Cons.prems by simp
  have "\<forall>x \<in> set as. x < length ?s1" using Cons.prems by auto
  from Cons.IH [OF this] obtain s' where
    c: "clone_attributes ?s1 as = Some ([length ?s1 ..< length ?s1 + length as], s')"
    and e: "extends ?s1 s'" and l: "length s' = length ?s1 + length as"
    and n: "\<forall>i < length as. s' ! (length ?s1 + i) =
                detached (kind (?s1 ! (as ! i))) (ownerDocument (?s1 ! (as ! i)))"
    by blast
  have r: "[length s ..< length s + length (a # as)] = length s # [length ?s1 ..< length ?s1 + length as]"
    by (simp add: upt_conv_Cons del: upt_Suc)
  have 1: "clone_attributes s (a # as) = Some ([length s ..< length s + length (a # as)], s')"
    unfolding r using a c by (simp add: get_def new_node_def del: upt_Suc)
  have 2: "extends s s'"
    using extends_trans [OF extends_append e] .
  have 3: "length s' = length s + length (a # as)" using l by simp
  have 4: "\<forall>i < length (a # as). s' ! (length s + i) =
                detached (kind (s ! ((a # as) ! i))) (ownerDocument (s ! ((a # as) ! i)))"
  proof (intro allI impI)
    fix i assume i: "i < length (a # as)"
    show "s' ! (length s + i) = detached (kind (s ! ((a # as) ! i))) (ownerDocument (s ! ((a # as) ! i)))"
    proof (cases i)
      case 0
      have "s' ! length s = ?s1 ! length s" using e by (simp add: extends_def)
      then show ?thesis using 0 by simp
    next
      case (Suc j)
      then have j: "j < length as" using i by simp
      have "as ! j < length s" using Cons.prems j by simp
      then have "?s1 ! (as ! j) = s ! (as ! j)" by (simp add: nth_append)
      then show ?thesis using n j Suc by simp
    qed
  qed
  show ?case using 1 2 3 4 by blast
qed

section \<open>Shapes and counts\<close>

lemma nodeType_erase [simp]: "nodeType (erase k) = nodeType k"
  by (cases k) auto

lemma erase_nodeType: "erase k = erase k' \<Longrightarrow> nodeType k = nodeType k'"
  by (metis nodeType_erase)

lemma kind_of_nth: "r < length s \<Longrightarrow> kind_of s r = Some (kind (s ! r))"
  by (simp add: kind_of_def get_def)

lemma shapes_fuel_cong:
  "\<forall>c \<in> set cs. shape_fuel k s' c = shape_fuel k s c \<Longrightarrow> shapes_fuel k s' cs = shapes_fuel k s cs"
  by (induction cs) (auto split: option.splits)

lemma shape_stable:
  assumes o: "ordered b s" and af: "attrs_fresh b s" and bz: "b \<le> z"
    and len: "length s \<le> length s'"
    and kd: "\<forall>y < length s. kind (s' ! y) = kind (s ! y)"
    and ch: "\<forall>y < length s. y \<noteq> z \<longrightarrow> childNodes (s' ! y) = childNodes (s ! y)"
  shows "z < x \<Longrightarrow> x < length s \<Longrightarrow> shape_fuel k s' x = shape_fuel k s x"
proof (induction k arbitrary: x)
  case 0
  then show ?case by simp
next
  case (Suc k)
  have x: "x < length s" "x < length s'" "b \<le> x" "x \<noteq> z"
    using Suc.prems len bz by auto
  have k: "kind (s' ! x) = kind (s ! x)" using kd x by simp
  have c: "childNodes (s' ! x) = childNodes (s ! x)" using ch x by simp
  have "\<forall>c \<in> set (childNodes (s ! x)). z < c \<and> c < length s"
    using o x Suc.prems unfolding ordered_def by (meson less_trans)
  then have cs: "shapes_fuel k s' (childNodes (s ! x)) = shapes_fuel k s (childNodes (s ! x))"
    using Suc.IH by (intro shapes_fuel_cong) auto
  have "\<forall>a \<in> set (attributes (kind (s ! x))). a < length s"
    using af x unfolding attrs_fresh_def by blast
  then have as: "map (kind_of s') (attributes (kind (s ! x))) = map (kind_of s) (attributes (kind (s ! x)))"
    using kd len by (auto simp: kind_of_nth)
  show ?case
    using x by (simp add: get_def k c cs as cong: option.case_cong)
qed

lemma valid_tree_live: "valid_tree k s r \<Longrightarrow> r < length s"
  by (cases k) (auto simp: get_def split: if_splits)

lemma shapes_fuel_Some:
  "\<forall>c \<in> set cs. \<exists>t. shape_fuel k s c = Some t \<Longrightarrow> \<exists>ts. shapes_fuel k s cs = Some ts"
  by (induction cs) auto

lemma valid_shape_Some: "valid_tree k s r \<Longrightarrow> \<exists>t. shape_fuel k s r = Some t"
proof (induction k arbitrary: r)
  case 0
  then show ?case by simp
next
  case (Suc k)
  then obtain n where n: "get s r = Some n" by (auto split: option.splits)
  have "\<forall>c \<in> set (childNodes n). valid_tree k s c"
    using Suc.prems n by (auto simp: list_all_iff)
  then have "\<exists>ts. shapes_fuel k s (childNodes n) = Some ts"
    using Suc.IH by (intro shapes_fuel_Some) auto
  then show ?case using n by auto
qed

lemma shapes_fuel_nth:
  "shapes_fuel k s cs = Some ts \<Longrightarrow>
     length ts = length cs \<and> (\<forall>i < length cs. shape_fuel k s (cs ! i) = Some (ts ! i))"
proof (induction cs arbitrary: ts)
  case Nil
  then show ?case by simp
next
  case (Cons c cs)
  then obtain t ts' where t: "shape_fuel k s c = Some t" "shapes_fuel k s cs = Some ts'" "ts = t # ts'"
    by (auto split: option.splits)
  then show ?case using Cons.IH [of ts'] by (auto simp: nth_Cons split: nat.splits)
qed

lemma count_type_Cons:
  "count_type s t (c # cs) = (if nodeType_of s c = Some t then 1 else 0) + count_type s t cs"
  by (simp add: count_type_def)

lemma count_type_append:
  "count_type s t (cs @ ds) = count_type s t cs + count_type s t ds"
  by (simp add: count_type_def)

lemma count_type_cong:
  "\<forall>c \<in> set cs. nodeType_of s' c = nodeType_of s c \<Longrightarrow> count_type s' t cs = count_type s t cs"
  unfolding count_type_def by (metis (mono_tags, lifting) filter_cong)

section \<open>Linking a child\<close>

lemma childNodes_link_last:
  "x < length s \<Longrightarrow> p \<noteq> c \<Longrightarrow>
     childNodes (link_last s p c ! x) = (if x = p then childNodes (s ! x) @ [c] else childNodes (s ! x))"
  by (simp add: nth_link_last)

lemma kind_link_last:
  "x < length s \<Longrightarrow> p \<noteq> c \<Longrightarrow> kind (link_last s p c ! x) = kind (s ! x)"
  by (simp add: nth_link_last)

lemma parentNode_link_last:
  "x < length s \<Longrightarrow> p \<noteq> c \<Longrightarrow>
     parentNode (link_last s p c ! x) = (if x = c then Some p else parentNode (s ! x))"
  by (simp add: nth_link_last)

lemma ordered_link_last:
  assumes o: "ordered b s" and pc: "p < c" and c: "c < length s"
  shows "ordered b (link_last s p c)"
  unfolding ordered_def
proof (intro allI impI ballI)
  fix y x
  assume y: "b \<le> y \<and> y < length (link_last s p c)"
    and x: "x \<in> set (childNodes (link_last s p c ! y))"
  have yl: "y < length s" using y by simp
  have ne: "p \<noteq> c" using pc by simp
  have "x \<in> set (childNodes (s ! y)) \<or> (y = p \<and> x = c)"
    using x unfolding childNodes_link_last [OF yl ne] by (cases "y = p") auto
  then show "y < x \<and> x < length (link_last s p c)"
  proof
    assume "x \<in> set (childNodes (s ! y))"
    then have "y < x \<and> x < length s"
      using o y yl unfolding ordered_def by blast
    then show ?thesis by simp
  next
    assume "y = p \<and> x = c"
    then show ?thesis using pc c by simp
  qed
qed

lemma attrs_fresh_link_last:
  assumes "attrs_fresh b s" "p < c" "c < length s"
  shows "attrs_fresh b (link_last s p c)"
  unfolding attrs_fresh_def
proof (intro allI impI ballI)
  fix y a
  assume y: "b \<le> y \<and> y < length (link_last s p c)"
    and a: "a \<in> set (attributes (kind (link_last s p c ! y)))"
  have yl: "y < length s" using y by simp
  have "kind (link_last s p c ! y) = kind (s ! y)"
    using kind_link_last [OF yl] assms(2) by simp
  then have "a \<in> set (attributes (kind (s ! y)))" using a by simp
  then have "b \<le> a \<and> a < length s"
    using assms(1) y yl unfolding attrs_fresh_def by blast
  then show "b \<le> a \<and> a < length (link_last s p c)" by simp
qed

lemma extends_link_last:
  assumes e: "extends s0 s" and p: "length s0 \<le> p" and pc: "p < c" and c: "c < length s"
  shows "extends s0 (link_last s p c)"
  unfolding extends_def
proof (intro conjI allI impI)
  show "length s0 \<le> length (link_last s p c)" using e by (simp add: extends_def)
next
  fix r assume r: "r < length s0"
  then have "r < length s" "r \<noteq> p" "r \<noteq> c" using e p pc by (auto simp: extends_def)
  then have "link_last s p c ! r = s ! r" using pc by (simp add: nth_link_last)
  then show "link_last s p c ! r = s0 ! r" using e r by (simp add: extends_def)
qed

lemma nodeType_of_link_last:
  "p \<noteq> c \<Longrightarrow> nodeType_of (link_last s p c) x = nodeType_of s x"
  by (cases "x < length s") (simp_all add: nodeType_of_def get_def kind_link_last)

section \<open>The shallow clone\<close>

lemma attributes_of_Attr: "nodeType k = Node_Attribute \<Longrightarrow> attributes k = []"
  by (cases k) auto

lemma ordered_append_leaf:
  assumes "ordered b s" "childNodes n = []"
  shows "ordered b (s @ [n])"
  unfolding ordered_def
proof (intro allI impI ballI)
  fix y c
  assume y: "b \<le> y \<and> y < length (s @ [n])" and c: "c \<in> set (childNodes ((s @ [n]) ! y))"
  show "y < c \<and> c < length (s @ [n])"
  proof (cases "y < length s")
    case True
    then have "c \<in> set (childNodes (s ! y))" using c by (simp add: nth_append)
    then have "y < c \<and> c < length s" using assms(1) y True unfolding ordered_def by blast
    then show ?thesis by simp
  next
    case False
    then have "y = length s" using y by simp
    then show ?thesis using c assms(2) by simp
  qed
qed

lemma attrs_fresh_append:
  assumes "attrs_fresh b s" "\<forall>a \<in> set (attributes (kind n)). b \<le> a \<and> a \<le> length s"
  shows "attrs_fresh b (s @ [n])"
  unfolding attrs_fresh_def
proof (intro allI impI ballI)
  fix y a
  assume y: "b \<le> y \<and> y < length (s @ [n])" and a: "a \<in> set (attributes (kind ((s @ [n]) ! y)))"
  show "b \<le> a \<and> a < length (s @ [n])"
  proof (cases "y < length s")
    case True
    then have "a \<in> set (attributes (kind (s ! y)))" using a by (simp add: nth_append)
    then have "b \<le> a \<and> a < length s" using assms(1) y True unfolding attrs_fresh_def by blast
    then show ?thesis by simp
  next
    case False
    then have "y = length s" using y by simp
    then show ?thesis using a assms(2) by auto
  qed
qed

lemma ordered_extend_leaves:
  assumes o: "ordered b s" and e: "extends s s'"
    and l: "\<forall>y. length s \<le> y \<and> y < length s' \<longrightarrow> childNodes (s' ! y) = []"
  shows "ordered b s'"
  unfolding ordered_def
proof (intro allI impI ballI)
  fix y c
  assume y: "b \<le> y \<and> y < length s'" and c: "c \<in> set (childNodes (s' ! y))"
  show "y < c \<and> c < length s'"
  proof (cases "y < length s")
    case True
    have eq: "s' ! y = s ! y" using extends_nth [OF e True] .
    have "c \<in> set (childNodes (s ! y))" using c unfolding eq .
    then have "y < c \<and> c < length s" using o y True unfolding ordered_def by blast
    then show ?thesis using extends_len [OF e] by linarith
  next
    case False
    then have "childNodes (s' ! y) = []" using l y by (simp add: not_less)
    then show ?thesis using c by simp
  qed
qed

lemma attrs_fresh_extend_leaves:
  assumes o: "attrs_fresh b s" and e: "extends s s'"
    and l: "\<forall>y. length s \<le> y \<and> y < length s' \<longrightarrow> attributes (kind (s' ! y)) = []"
  shows "attrs_fresh b s'"
  unfolding attrs_fresh_def
proof (intro allI impI ballI)
  fix y a
  assume y: "b \<le> y \<and> y < length s'" and a: "a \<in> set (attributes (kind (s' ! y)))"
  show "b \<le> a \<and> a < length s'"
  proof (cases "y < length s")
    case True
    have eq: "s' ! y = s ! y" using extends_nth [OF e True] .
    have "a \<in> set (attributes (kind (s ! y)))" using a unfolding eq .
    then have "b \<le> a \<and> a < length s" using o y True unfolding attrs_fresh_def by blast
    then show ?thesis using extends_len [OF e] by linarith
  next
    case False
    then have "attributes (kind (s' ! y)) = []" using l y by (simp add: not_less)
    then show ?thesis using a by simp
  qed
qed

lemma shallow_total:
  assumes at: "\<forall>a \<in> set (attributes (kind n)). nodeType_of s0 a = Some Node_Attribute"
    and e0: "extends s0 s" and o: "ordered (length s0) s" and af: "attrs_fresh (length s0) s"
  shows "\<exists>c s1. (if kind n = Document then Some (new_Document s) else shallow_clone s n) = Some (c, s1)
           \<and> extends s s1 \<and> length s1 = Suc c \<and> length s \<le> c
           \<and> parentNode (s1 ! c) = None \<and> childNodes (s1 ! c) = []
           \<and> erase (kind (s1 ! c)) = erase (kind n)
           \<and> map (kind_of s1) (attributes (kind (s1 ! c))) = map (kind_of s0) (attributes (kind n))
           \<and> ordered (length s0) s1 \<and> attrs_fresh (length s0) s1"
proof (cases "\<exists>ns p l as. kind n = Element ns p l as")
  case False
  then have na: "attributes (kind n) = []" by (cases "kind n") auto
  define m where "m = (if kind n = Document then detached Document None
                       else detached (kind n) (ownerDocument n))"
  have r: "(if kind n = Document then Some (new_Document s) else shallow_clone s n)
             = Some (length s, s @ [m])"
    using False unfolding m_def
    by (cases "kind n") (simp_all add: new_Document_def shallow_clone_def new_node_def)
  have km: "kind m = kind n" "parentNode m = None" "childNodes m = []"
    unfolding m_def by (simp_all add: detached_def)
  have 1: "ordered (length s0) (s @ [m])"
    using ordered_append_leaf [OF o km(3)] .
  have 2: "attrs_fresh (length s0) (s @ [m])"
    using attrs_fresh_append [OF af] km(1) na by simp
  show ?thesis
    using r km na 1 2 by (simp add: extends_append)
next
  case True
  then obtain ns p l as where k: "kind n = Element ns p l as" by blast
  have live0: "\<forall>a \<in> set as. a < length s0"
    using at k by (auto dest: nodeType_of_live)
  then have live: "\<forall>a \<in> set as. a < length s"
    using extends_len [OF e0] by fastforce
  from clone_attributes_total [OF live] obtain s1' where
    ca: "clone_attributes s as = Some ([length s ..< length s + length as], s1')"
    and e1: "extends s s1'" and l1: "length s1' = length s + length as"
    and n1: "\<forall>i < length as. s1' ! (length s + i) =
                detached (kind (s ! (as ! i))) (ownerDocument (s ! (as ! i)))"
    by blast
  define as' where "as' = [length s ..< length s + length as]"
  define m where "m = detached (Element ns p l as') (ownerDocument n)"
  define s1 where "s1 = s1' @ [m]"
  have r: "(if kind n = Document then Some (new_Document s) else shallow_clone s n)
             = Some (length s1', s1)"
    using k ca unfolding m_def s1_def as'_def
    by (simp add: shallow_clone_def new_node_def)
  have ex: "extends s s1"
    unfolding s1_def using extends_trans [OF e1 extends_append] .
  have akind: "\<forall>i < length as. kind (s1' ! (length s + i)) = kind (s0 ! (as ! i))"
  proof (intro allI impI)
    fix i assume i: "i < length as"
    then have "as ! i < length s0" using live0 by simp
    then have "s ! (as ! i) = s0 ! (as ! i)" using extends_nth [OF e0] by simp
    then show "kind (s1' ! (length s + i)) = kind (s0 ! (as ! i))"
      using n1 i by (simp add: detached_def)
  qed
  have newleaf: "\<forall>y. length s \<le> y \<and> y < length s1' \<longrightarrow>
                   childNodes (s1' ! y) = [] \<and> attributes (kind (s1' ! y)) = []"
  proof (intro allI impI)
    fix y assume y: "length s \<le> y \<and> y < length s1'"
    then obtain i where i: "y = length s + i" "i < length as"
      using l1 by (metis add_diff_inverse_nat add_less_cancel_left not_less)
    have "nodeType_of s0 (as ! i) = Some Node_Attribute" using at k i by simp
    moreover have "as ! i < length s0" using live0 i by simp
    ultimately have "nodeType (kind (s0 ! (as ! i))) = Node_Attribute"
      by (simp add: nodeType_of_nth)
    then have "attributes (kind (s1' ! y)) = []"
      using akind i by (simp add: attributes_of_Attr)
    moreover have "childNodes (s1' ! y) = []"
      using n1 i by (simp add: detached_def)
    ultimately show "childNodes (s1' ! y) = [] \<and> attributes (kind (s1' ! y)) = []" by simp
  qed
  have o1: "ordered (length s0) s1'"
    using ordered_extend_leaves [OF o e1] newleaf by blast
  have f1: "attrs_fresh (length s0) s1'"
    using attrs_fresh_extend_leaves [OF af e1] newleaf by blast
  have km: "kind m = Element ns p l as'" "parentNode m = None" "childNodes m = []"
    unfolding m_def by (simp_all add: detached_def)
  have o2: "ordered (length s0) s1"
    unfolding s1_def using ordered_append_leaf [OF o1 km(3)] .
  have "\<forall>a \<in> set (attributes (kind m)). length s0 \<le> a \<and> a \<le> length s1'"
    using km(1) extends_len [OF e0] l1 unfolding as'_def by auto
  then have f2: "attrs_fresh (length s0) s1"
    unfolding s1_def using attrs_fresh_append [OF f1] by blast
  have mk: "map (kind_of s1) as' = map (kind_of s0) as"
  proof (rule nth_equalityI)
    show "length (map (kind_of s1) as') = length (map (kind_of s0) as)"
      unfolding as'_def by simp
  next
    fix i assume "i < length (map (kind_of s1) as')"
    then have i: "i < length as" unfolding as'_def by simp
    have a: "as' ! i = length s + i" unfolding as'_def using i by simp
    have b: "length s + i < length s1'" using i l1 by simp
    have "kind_of s1 (length s + i) = Some (kind (s1' ! (length s + i)))"
      unfolding s1_def using b by (simp add: kind_of_def get_def nth_append)
    also have "\<dots> = Some (kind (s0 ! (as ! i)))" using akind i by simp
    also have "\<dots> = kind_of s0 (as ! i)" using live0 i by (simp add: kind_of_nth)
    finally show "map (kind_of s1) as' ! i = map (kind_of s0) as ! i"
      using i a unfolding as'_def by simp
  qed
  have c: "s1 ! length s1' = m" unfolding s1_def by simp
  show ?thesis
    using r ex c km k mk o2 f2 l1 unfolding s1_def by simp
qed

section \<open>The loop over the children\<close>

lemma clone_children_total:
  assumes IH: "\<And>s r. valid_tree k s0 r \<Longrightarrow> extends s0 s \<Longrightarrow> ordered (length s0) s
                 \<Longrightarrow> attrs_fresh (length s0) s
                 \<Longrightarrow> \<exists>c s'. cloneNode_fuel k s r True = Some (Inr (c, s'))
                            \<and> clone_post k s0 r s c s' True"
  shows "extends s0 s \<Longrightarrow> ordered (length s0) s \<Longrightarrow> attrs_fresh (length s0) s
     \<Longrightarrow> length s0 \<le> cself \<Longrightarrow> cself < length s \<Longrightarrow> parentNode (s ! cself) = None
     \<Longrightarrow> \<forall>c \<in> set cs. valid_tree k s0 c
            \<and> permitted_child (nodeType (kind (s ! cself))) (nodeType (kind (s0 ! c)))
     \<Longrightarrow> (nodeType (kind (s ! cself)) = Node_Document \<longrightarrow>
            count_type s Node_Element (childNodes (s ! cself)) + count_type s0 Node_Element cs \<le> 1
            \<and> count_type s Node_DocumentType (childNodes (s ! cself))
                + count_type s0 Node_DocumentType cs \<le> 1)
     \<Longrightarrow> \<exists>s' cs'. clone_children k s cself cs = Some (Inr s') \<and> loop_post k s0 s cself cs s' cs'"
proof (induction cs arbitrary: s)
  case Nil
  have "loop_post k s0 s cself [] s []"
    using Nil.prems(2,3) unfolding loop_post_def by simp
  then show ?case by auto
next
  case (Cons child rest)
  note e0 = Cons.prems(1) and o = Cons.prems(2) and af = Cons.prems(3)
    and bc = Cons.prems(4) and cl = Cons.prems(5) and pn = Cons.prems(6)
    and vs = Cons.prems(7) and cnt = Cons.prems(8)
  let ?b = "length s0"
  have vchild: "valid_tree k s0 child" using vs by simp
  have child0: "child < length s0" using valid_tree_live [OF vchild] .
  from IH [OF vchild e0 o af] obtain cc s1 where
    cl1: "cloneNode_fuel k s child True = Some (Inr (cc, s1))"
    and post: "clone_post k s0 child s cc s1 True"
    by blast
  have e1: "extends s s1" and cc1: "length s \<le> cc" and cc2: "cc < length s1"
    and ccp: "parentNode (s1 ! cc) = None"
    and cck: "erase (kind (s1 ! cc)) = erase (kind (s0 ! child))"
    and o1: "ordered ?b s1" and af1: "attrs_fresh ?b s1"
    and sh1: "shape_fuel k s1 cc = shape_fuel k s0 child"
    using post unfolding clone_post_def by simp_all
  have lt: "cself < cc" using cl cc1 by simp
  have ne: "cself \<noteq> cc" using lt by simp
  have cs1: "cself < length s1" using cl extends_len [OF e1] by simp
  have self1: "s1 ! cself = s ! cself" using extends_nth [OF e1 cl] .
  have cct: "nodeType (kind (s1 ! cc)) = nodeType (kind (s0 ! child))"
    using erase_nodeType [OF cck] .
  have chl: "\<forall>x \<in> set (childNodes (s ! cself)). x < length s"
    using o bc cl unfolding ordered_def by blast
  have cnt1: "count_type s1 t (childNodes (s ! cself)) = count_type s t (childNodes (s ! cself))" for t
    by (rule count_type_cong) (use chl extends_nodeType_of [OF e1] in blast)
  have tchild: "nodeType_of s0 child = Some (nodeType (kind (s0 ! child)))"
    using nodeType_of_nth [OF child0] .
  have de: "count_type s1 Node_Element (childNodes (s1 ! cself)) = 0"
    if "nodeType (kind (s1 ! cself)) = Node_Document" "nodeType (kind (s1 ! cc)) = Node_Element"
    using that cnt cnt1 [of Node_Element] tchild cct unfolding self1
    by (simp add: count_type_Cons)
  have dt: "count_type s1 Node_DocumentType (childNodes (s1 ! cself)) = 0"
    if "nodeType (kind (s1 ! cself)) = Node_Document" "nodeType (kind (s1 ! cc)) = Node_DocumentType"
    using that cnt cnt1 [of Node_DocumentType] tchild cct unfolding self1
    by (simp add: count_type_Cons)
  have perm: "permitted_child (nodeType (kind (s1 ! cself))) (nodeType (kind (s1 ! cc)))"
    using vs unfolding self1 cct by simp
  define s2 where "s2 = link_last s1 cself cc"
  have pn1: "parentNode (s1 ! cself) = None" using pn unfolding self1 .
  have app: "appendChild s1 cself cc = Some (Inr (cc, s2))"
    unfolding s2_def by (rule appendChild_fresh [OF cs1 cc2 ne pn1 ccp perm de dt])
  have len2: "length s2 = length s1" unfolding s2_def by simp
  have e02: "extends s0 s2"
    unfolding s2_def using extends_link_last [OF extends_trans [OF e0 e1] bc lt cc2] .
  have o2: "ordered ?b s2"
    unfolding s2_def using ordered_link_last [OF o1 lt cc2] .
  have af2: "attrs_fresh ?b s2"
    unfolding s2_def using attrs_fresh_link_last [OF af1 lt cc2] .
  have nth2: "s2 ! x = (if x = cc then (s1 ! x)\<lparr>parentNode := Some cself\<rparr>
                       else if x = cself then (s1 ! x)\<lparr>childNodes := childNodes (s1 ! x) @ [cc]\<rparr>
                       else s1 ! x)" if "x < length s1" for x
    unfolding s2_def using nth_link_last [OF that ne] .
  have self2: "s2 ! cself = (s ! cself)\<lparr>childNodes := childNodes (s ! cself) @ [cc]\<rparr>"
    using nth2 [OF cs1] ne self1 by simp
  have cs2: "cself < length s2" using cs1 len2 by simp
  have pn2: "parentNode (s2 ! cself) = None" using self2 pn by simp
  have k2: "kind (s2 ! cself) = kind (s ! cself)" using self2 by simp
  have vs2: "\<forall>c \<in> set rest. valid_tree k s0 c
            \<and> permitted_child (nodeType (kind (s2 ! cself))) (nodeType (kind (s0 ! c)))"
    using vs unfolding k2 by simp
  have nt2: "nodeType_of s2 x = nodeType_of s1 x" for x
    unfolding s2_def using nodeType_of_link_last [OF ne] .
  have cnt2: "count_type s2 t (childNodes (s2 ! cself)) =
                count_type s t (childNodes (s ! cself))
                + (if nodeType (kind (s0 ! child)) = t then 1 else 0)" for t
  proof -
    have "count_type s2 t (childNodes (s2 ! cself)) = count_type s1 t (childNodes (s ! cself) @ [cc])"
      unfolding self2 by (simp add: count_type_cong nt2)
    also have "\<dots> = count_type s1 t (childNodes (s ! cself)) + count_type s1 t [cc]"
      by (rule count_type_append)
    also have "count_type s1 t [cc] = (if nodeType (kind (s0 ! child)) = t then 1 else 0)"
      using cc2 cct by (simp add: count_type_def nodeType_of_nth)
    finally show ?thesis using cnt1 [of t] by simp
  qed
  have cntc: "count_type s0 t (child # rest) =
                (if nodeType (kind (s0 ! child)) = t then 1 else 0) + count_type s0 t rest" for t
    using tchild by (simp add: count_type_Cons)
  have cnt': "nodeType (kind (s2 ! cself)) = Node_Document \<longrightarrow>
            count_type s2 Node_Element (childNodes (s2 ! cself)) + count_type s0 Node_Element rest \<le> 1
            \<and> count_type s2 Node_DocumentType (childNodes (s2 ! cself))
                + count_type s0 Node_DocumentType rest \<le> 1"
  proof -
    have "count_type s2 t (childNodes (s2 ! cself)) + count_type s0 t rest =
            count_type s t (childNodes (s ! cself)) + count_type s0 t (child # rest)" for t
      using cnt2 [of t] cntc [of t] by simp
    then show ?thesis using cnt unfolding k2 by simp
  qed
  from Cons.IH [OF e02 o2 af2 bc cs2 pn2 vs2 cnt'] obtain s' rest' where
    loop: "clone_children k s2 cself rest = Some (Inr s')"
    and lp: "loop_post k s0 s2 cself rest s' rest'"
    by blast
  have l1: "length s2 \<le> length s'"
    and l2: "\<forall>y < length s2. y \<noteq> cself \<longrightarrow> s' ! y = s2 ! y"
    and l3: "s' ! cself = (s2 ! cself)\<lparr>childNodes := childNodes (s2 ! cself) @ rest'\<rparr>"
    and l4: "length rest' = length rest"
    and l5: "\<forall>c' \<in> set rest'. length s2 \<le> c' \<and> c' < length s' \<and> parentNode (s' ! c') = Some cself"
    and l6: "shapes_fuel k s' rest' = shapes_fuel k s0 rest"
    and l7: "ordered ?b s'" and l8: "attrs_fresh ?b s'"
    using lp unfolding loop_post_def by simp_all
  have r1: "clone_children k s cself (child # rest) = Some (Inr s')"
    using cl1 app loop by simp
  have r2: "length s \<le> length s'"
    using extends_len [OF e1] len2 l1 by simp
  have r3: "\<forall>y < length s. y \<noteq> cself \<longrightarrow> s' ! y = s ! y"
  proof (intro allI impI)
    fix y assume y: "y < length s" "y \<noteq> cself"
    have y1: "y < length s1" using y extends_len [OF e1] by simp
    have "s' ! y = s2 ! y" using l2 y y1 len2 by simp
    also have "\<dots> = s1 ! y" using nth2 [OF y1] y cc1 by simp
    also have "\<dots> = s ! y" using extends_nth [OF e1 y(1)] .
    finally show "s' ! y = s ! y" .
  qed
  have r4: "s' ! cself = (s ! cself)\<lparr>childNodes := childNodes (s ! cself) @ (cc # rest')\<rparr>"
    unfolding l3 self2 by simp
  have r5: "length (cc # rest') = length (child # rest)" using l4 by simp
  have ccs2: "s' ! cc = s2 ! cc" using l2 cc2 len2 ne by simp
  have r6: "\<forall>c' \<in> set (cc # rest'). length s \<le> c' \<and> c' < length s' \<and> parentNode (s' ! c') = Some cself"
  proof
    fix c' assume "c' \<in> set (cc # rest')"
    then consider "c' = cc" | "c' \<in> set rest'" by auto
    then show "length s \<le> c' \<and> c' < length s' \<and> parentNode (s' ! c') = Some cself"
    proof cases
      case 1
      have "parentNode (s2 ! cc) = Some cself" using nth2 [OF cc2] by simp
      then show ?thesis using 1 cc1 cc2 len2 l1 ccs2 by simp
    next
      case 2
      then have "length s2 \<le> c' \<and> c' < length s' \<and> parentNode (s' ! c') = Some cself"
        using l5 by blast
      then show ?thesis using extends_len [OF e1] len2 by simp
    qed
  qed
  have kd12: "\<forall>y < length s1. kind (s2 ! y) = kind (s1 ! y)"
    using nth2 by simp
  have ch12: "\<forall>y < length s1. y \<noteq> cself \<longrightarrow> childNodes (s2 ! y) = childNodes (s1 ! y)"
    using nth2 by simp
  have st1: "shape_fuel k s2 cc = shape_fuel k s1 cc"
    using shape_stable [OF o1 af1 bc _ kd12 ch12 lt cc2] len2 by simp
  have kd2: "\<forall>y < length s2. kind (s' ! y) = kind (s2 ! y)"
  proof (intro allI impI)
    fix y assume y: "y < length s2"
    show "kind (s' ! y) = kind (s2 ! y)"
    proof (cases "y = cself")
      case True
      then show ?thesis using l3 by simp
    next
      case False
      then show ?thesis using l2 y by simp
    qed
  qed
  have ch2: "\<forall>y < length s2. y \<noteq> cself \<longrightarrow> childNodes (s' ! y) = childNodes (s2 ! y)"
    using l2 by simp
  have st2: "shape_fuel k s' cc = shape_fuel k s2 cc"
    using shape_stable [OF o2 af2 bc l1 kd2 ch2 lt] cc2 len2 by simp
  have r7: "shapes_fuel k s' (cc # rest') = shapes_fuel k s0 (child # rest)"
    using st1 st2 sh1 l6 by (simp cong: option.case_cong)
  have "loop_post k s0 s cself (child # rest) s' (cc # rest')"
    unfolding loop_post_def using r2 r3 r4 r5 r6 r7 l7 l8 by blast
  then show ?case using r1 by blast
qed

section \<open>\<open>cloneNode\<close> returns\<close>

lemma valid_tree_Suc:
  assumes "valid_tree (Suc k) s r"
  shows "r < length s"
    and "\<forall>a \<in> set (attributes (kind (s ! r))). nodeType_of s a = Some Node_Attribute"
    and "\<forall>c \<in> set (childNodes (s ! r)). valid_tree k s c
           \<and> permitted_child (nodeType (kind (s ! r))) (nodeType (kind (s ! c)))"
    and "nodeType (kind (s ! r)) = Node_Document \<Longrightarrow>
           count_type s Node_Element (childNodes (s ! r)) \<le> 1
           \<and> count_type s Node_DocumentType (childNodes (s ! r)) \<le> 1"
proof -
  show r: "r < length s" using valid_tree_live [OF assms] .
  then have g: "get s r = Some (s ! r)" by (simp add: get_def)
  show "\<forall>a \<in> set (attributes (kind (s ! r))). nodeType_of s a = Some Node_Attribute"
    using assms g by (simp add: list_all_iff)
  have c: "\<forall>c \<in> set (childNodes (s ! r)).
             (case nodeType_of s c of None \<Rightarrow> False
              | Some t \<Rightarrow> permitted_child (nodeType (kind (s ! r))) t) \<and> valid_tree k s c"
    using assms g by (simp add: list_all_iff)
  show "\<forall>c \<in> set (childNodes (s ! r)). valid_tree k s c
           \<and> permitted_child (nodeType (kind (s ! r))) (nodeType (kind (s ! c)))"
  proof
    fix x assume x: "x \<in> set (childNodes (s ! r))"
    then have v: "valid_tree k s x"
      and p: "(case nodeType_of s x of None \<Rightarrow> False
              | Some t \<Rightarrow> permitted_child (nodeType (kind (s ! r))) t)"
      using c by blast+
    have "x < length s" using valid_tree_live [OF v] .
    then have "nodeType_of s x = Some (nodeType (kind (s ! x)))" by (rule nodeType_of_nth)
    then show "valid_tree k s x \<and> permitted_child (nodeType (kind (s ! r))) (nodeType (kind (s ! x)))"
      using v p by simp
  qed
  show "count_type s Node_Element (childNodes (s ! r)) \<le> 1
           \<and> count_type s Node_DocumentType (childNodes (s ! r)) \<le> 1"
    if "nodeType (kind (s ! r)) = Node_Document"
    using assms g that by simp
qed

lemma cloneNode_fuel_total:
  "valid_tree k s0 r \<Longrightarrow> extends s0 s \<Longrightarrow> ordered (length s0) s \<Longrightarrow> attrs_fresh (length s0) s
     \<Longrightarrow> \<exists>c s'. cloneNode_fuel k s r deep = Some (Inr (c, s')) \<and> clone_post k s0 r s c s' deep"
proof (induction k arbitrary: r s deep)
  case 0
  then show ?case by simp
next
  case (Suc k)
  note v = Suc.prems(1) and e0 = Suc.prems(2) and o = Suc.prems(3) and af = Suc.prems(4)
  let ?n = "s0 ! r"
  have r0: "r < length s0" using valid_tree_Suc(1) [OF v] .
  have at: "\<forall>a \<in> set (attributes (kind ?n)). nodeType_of s0 a = Some Node_Attribute"
    using valid_tree_Suc(2) [OF v] .
  have g: "get s r = Some ?n"
    using extends_get [OF e0 r0] r0 by (simp add: get_def)
  from shallow_total [OF at e0 o af] obtain c s1 where
    sh: "(if kind ?n = Document then Some (new_Document s) else shallow_clone s ?n) = Some (c, s1)"
    and e1: "extends s s1" and l1: "length s1 = Suc c" and c1: "length s \<le> c"
    and p1: "parentNode (s1 ! c) = None" and ch1: "childNodes (s1 ! c) = []"
    and k1: "erase (kind (s1 ! c)) = erase (kind ?n)"
    and a1: "map (kind_of s1) (attributes (kind (s1 ! c))) = map (kind_of s0) (attributes (kind ?n))"
    and o1: "ordered (length s0) s1" and af1: "attrs_fresh (length s0) s1"
    by blast
  have cl: "c < length s1" using l1 by simp
  show ?case
  proof (cases deep)
    case False
    have "cloneNode_fuel (Suc k) s r deep = Some (Inr (c, s1))"
      using g sh False by simp
    moreover have "clone_post (Suc k) s0 r s c s1 deep"
      unfolding clone_post_def using False e1 c1 cl p1 k1 a1 o1 af1 ch1 by simp
    ultimately show ?thesis by blast
  next
    case True
    have IH: "\<And>s r. valid_tree k s0 r \<Longrightarrow> extends s0 s \<Longrightarrow> ordered (length s0) s
                 \<Longrightarrow> attrs_fresh (length s0) s
                 \<Longrightarrow> \<exists>c s'. cloneNode_fuel k s r True = Some (Inr (c, s'))
                            \<and> clone_post k s0 r s c s' True"
      using Suc.IH by blast
    have e01: "extends s0 s1" using extends_trans [OF e0 e1] .
    have bc: "length s0 \<le> c" using extends_len [OF e0] c1 by simp
    have nt: "nodeType (kind (s1 ! c)) = nodeType (kind ?n)" using erase_nodeType [OF k1] .
    have vs: "\<forall>x \<in> set (childNodes ?n). valid_tree k s0 x
            \<and> permitted_child (nodeType (kind (s1 ! c))) (nodeType (kind (s0 ! x)))"
      using valid_tree_Suc(3) [OF v] unfolding nt .
    have cnt: "nodeType (kind (s1 ! c)) = Node_Document \<longrightarrow>
            count_type s1 Node_Element (childNodes (s1 ! c)) + count_type s0 Node_Element (childNodes ?n) \<le> 1
            \<and> count_type s1 Node_DocumentType (childNodes (s1 ! c))
                + count_type s0 Node_DocumentType (childNodes ?n) \<le> 1"
      using valid_tree_Suc(4) [OF v] unfolding nt ch1 by (simp add: count_type_def)
    from clone_children_total [of k s0, OF IH e01 o1 af1 bc cl p1 vs cnt] obtain s' cs' where
      loop: "clone_children k s1 c (childNodes ?n) = Some (Inr s')"
      and lp: "loop_post k s0 s1 c (childNodes ?n) s' cs'"
      by blast
    have l1': "length s1 \<le> length s'"
      and l2: "\<forall>y < length s1. y \<noteq> c \<longrightarrow> s' ! y = s1 ! y"
      and l3: "s' ! c = (s1 ! c)\<lparr>childNodes := childNodes (s1 ! c) @ cs'\<rparr>"
      and l6: "shapes_fuel k s' cs' = shapes_fuel k s0 (childNodes ?n)"
      and l7: "ordered (length s0) s'" and l8: "attrs_fresh (length s0) s'"
      using lp unfolding loop_post_def by simp_all
    have res: "cloneNode_fuel (Suc k) s r deep = Some (Inr (c, s'))"
      using g sh True loop by simp
    have ex: "extends s s'"
      unfolding extends_def
    proof (intro conjI allI impI)
      show "length s \<le> length s'" using extends_len [OF e1] l1' by simp
    next
      fix y assume y: "y < length s"
      then have "y < length s1" "y \<noteq> c" using extends_len [OF e1] c1 by auto
      then have "s' ! y = s1 ! y" using l2 by simp
      then show "s' ! y = s ! y" using extends_nth [OF e1 y] by simp
    qed
    have cl': "c < length s'" using cl l1' by simp
    have pc: "parentNode (s' ! c) = None" unfolding l3 using p1 by simp
    have kc: "kind (s' ! c) = kind (s1 ! c)" unfolding l3 by simp
    have chc: "childNodes (s' ! c) = cs'" unfolding l3 using ch1 by simp
    have kd: "kind (s' ! y) = kind (s1 ! y)" if "y < length s1" for y
      using l2 that kc by (cases "y = c") simp_all
    have "\<forall>a \<in> set (attributes (kind (s1 ! c))). a < length s1"
      using af1 bc cl unfolding attrs_fresh_def by blast
    then have am: "map (kind_of s') (attributes (kind (s1 ! c))) = map (kind_of s1) (attributes (kind (s1 ! c)))"
      using kd l1' by (auto simp: kind_of_nth)
    have shp: "shape_fuel (Suc k) s' c = shape_fuel (Suc k) s0 r"
      using cl' r0 by (simp add: get_def chc l6 kc k1 am a1 cong: option.case_cong)
    have "clone_post (Suc k) s0 r s c s' deep"
      unfolding clone_post_def using True ex c1 cl' pc kc k1 am a1 l7 l8 shp by simp
    then show ?thesis using res by blast
  qed
qed

section \<open>Subtrees and ownership\<close>

lemma own_step_refl: "own_step d s s"
  unfolding own_step_def by simp

lemma own_step_trans:
  assumes a: "own_step d s t" and b: "own_step d t u"
  shows "own_step d s u"
proof -
  have "kind (u ! y) = kind (s ! y) \<and> childNodes (u ! y) = childNodes (s ! y)
            \<and> parentNode (u ! y) = parentNode (s ! y)
            \<and> (ownerDocument (u ! y) = ownerDocument (s ! y) \<or> ownerDocument (u ! y) = Some d)"
    if y: "y < length s" for y
  proof -
  have yt: "y < length t" using a y unfolding own_step_def by simp
  have 1: "kind (t ! y) = kind (s ! y) \<and> childNodes (t ! y) = childNodes (s ! y)
            \<and> parentNode (t ! y) = parentNode (s ! y)
            \<and> (ownerDocument (t ! y) = ownerDocument (s ! y) \<or> ownerDocument (t ! y) = Some d)"
    using a y unfolding own_step_def by blast
  have 2: "kind (u ! y) = kind (t ! y) \<and> childNodes (u ! y) = childNodes (t ! y)
            \<and> parentNode (u ! y) = parentNode (t ! y)
            \<and> (ownerDocument (u ! y) = ownerDocument (t ! y) \<or> ownerDocument (u ! y) = Some d)"
    using b yt unfolding own_step_def by blast
    show ?thesis
      using 1 2 by metis
  qed
  moreover have "length u = length s" using a b unfolding own_step_def by simp
  ultimately show ?thesis unfolding own_step_def by blast
qed

lemma own_step_children_of:
  assumes "own_step d s s'"
  shows "children_of s' y = children_of s y"
proof (cases "y < length s")
  case True
  then show ?thesis using assms unfolding own_step_def by (simp add: children_of_def get_def)
next
  case False
  then show ?thesis using assms unfolding own_step_def by (simp add: children_of_def get_def)
qed

lemma own_step_attributes_of:
  assumes "own_step d s s'"
  shows "attributes_of s' y = attributes_of s y"
proof (cases "y < length s")
  case True
  then show ?thesis using assms unfolding own_step_def by (simp add: attributes_of_def get_def)
next
  case False
  then show ?thesis using assms unfolding own_step_def by (simp add: attributes_of_def get_def)
qed

lemma own_step_owner:
  assumes st: "own_step d s s'" and o: "ownerDocument_of s y = Some d"
  shows "ownerDocument_of s' y = Some d"
proof -
  have y: "y < length s" using o by (cases "y < length s") (simp_all add: ownerDocument_of_def get_def)
  then have "ownerDocument (s ! y) = Some d" using o by (simp add: ownerDocument_of_def get_def)
  moreover have "ownerDocument (s' ! y) = ownerDocument (s ! y) \<or> ownerDocument (s' ! y) = Some d"
    using st y unfolding own_step_def by blast
  moreover have "y < length s'" using st y unfolding own_step_def by simp
  ultimately show ?thesis by (auto simp: ownerDocument_of_def get_def)
qed

lemma owned_step:
  assumes st: "own_step d s s'" and o: "owned d s x"
  shows "owned d s' x"
  using o own_step_owner [OF st] unfolding owned_def own_step_attributes_of [OF st] by blast

lemma subtree_mono_children:
  assumes "\<And>y. set (children_of s y) \<subseteq> set (children_of s' y)"
  shows "x \<in> subtree s r \<Longrightarrow> x \<in> subtree s' r"
proof (induction rule: subtree.induct)
  case self
  then show ?case by (rule subtree.self)
next
  case (child x c)
  then show ?case using assms subtree.child by blast
qed

lemma subtree_cong:
  assumes "\<And>y. children_of s' y = children_of s y"
  shows "subtree s' r = subtree s r"
proof (intro set_eqI iffI)
  fix x assume "x \<in> subtree s' r"
  then show "x \<in> subtree s r" by (rule subtree_mono_children [rotated]) (simp add: assms)
next
  fix x assume "x \<in> subtree s r"
  then show "x \<in> subtree s' r" by (rule subtree_mono_children [rotated]) (simp add: assms)
qed

lemma subtree_trans: "x \<in> subtree s c \<Longrightarrow> c \<in> subtree s r \<Longrightarrow> x \<in> subtree s r"
proof (induction rule: subtree.induct)
  case self
  then show ?case by simp
next
  case (child x y)
  then show ?case using subtree.child by blast
qed

lemma subtree_child_subset:
  assumes "c \<in> set (children_of s r)"
  shows "subtree s c \<subseteq> subtree s r"
proof
  fix x assume "x \<in> subtree s c"
  moreover have "c \<in> subtree s r" using subtree.child [OF subtree.self assms] .
  ultimately show "x \<in> subtree s r" by (rule subtree_trans)
qed

lemma subtree_cases:
  "x \<in> subtree s r \<Longrightarrow> x = r \<or> (\<exists>c \<in> set (children_of s r). x \<in> subtree s c)"
proof (induction rule: subtree.induct)
  case self
  then show ?case by simp
next
  case (child x y)
  then consider "x = r" | c where "c \<in> set (children_of s r)" "x \<in> subtree s c" by blast
  then show ?case
  proof cases
    case 1
    then have "y \<in> set (children_of s r)" using child.hyps(2) by simp
    then show ?thesis using subtree.self by blast
  next
    case 2
    then have "y \<in> subtree s c" using subtree.child child.hyps(2) by blast
    then show ?thesis using 2(1) by blast
  qed
qed

lemma touched_child_subset:
  assumes "c \<in> set (children_of s r)"
  shows "touched s c \<subseteq> touched s r"
  using subtree_child_subset [OF assms] unfolding touched_def by blast

lemma touched_self: "r \<in> touched s r" "set (attributes_of s r) \<subseteq> touched s r"
  unfolding touched_def using subtree.self by blast+

section \<open>The callback\<close>

lemma length_set_ownerDocument [simp]: "length (set_ownerDocument d s r) = length s"
  by (simp add: set_ownerDocument_def)

lemma nth_set_ownerDocument:
  "y < length s \<Longrightarrow>
     set_ownerDocument d s r ! y = (if y = r then (s ! y)\<lparr>ownerDocument := Some d\<rparr> else s ! y)"
  by (simp add: set_ownerDocument_def nth_update)

lemma fold_set_ownerDocument:
  "length (fold (\<lambda>a t. set_ownerDocument d t a) as s) = length s
   \<and> (\<forall>y < length s. fold (\<lambda>a t. set_ownerDocument d t a) as s ! y =
          (if y \<in> set as then (s ! y)\<lparr>ownerDocument := Some d\<rparr> else s ! y))"
proof (induction as arbitrary: s)
  case Nil
  then show ?case by simp
next
  case (Cons a as)
  let ?t = "set_ownerDocument d s a"
  have l: "length (fold (\<lambda>a t. set_ownerDocument d t a) as ?t) = length ?t"
    and n: "\<forall>y < length ?t. fold (\<lambda>a t. set_ownerDocument d t a) as ?t ! y =
          (if y \<in> set as then (?t ! y)\<lparr>ownerDocument := Some d\<rparr> else ?t ! y)"
    using Cons.IH [of ?t] by blast+
  show ?case
  proof (intro conjI allI impI)
    show "length (fold (\<lambda>a t. set_ownerDocument d t a) (a # as) s) = length s"
      using l by simp
  next
    fix y assume y: "y < length s"
    have "fold (\<lambda>a t. set_ownerDocument d t a) (a # as) s ! y =
            (if y \<in> set as then (?t ! y)\<lparr>ownerDocument := Some d\<rparr> else ?t ! y)"
      using n y by simp
    also have "\<dots> = (if y \<in> set (a # as) then (s ! y)\<lparr>ownerDocument := Some d\<rparr> else s ! y)"
      using y by (simp add: nth_set_ownerDocument)
    finally show "fold (\<lambda>a t. set_ownerDocument d t a) (a # as) s ! y =
            (if y \<in> set (a # as) then (s ! y)\<lparr>ownerDocument := Some d\<rparr> else s ! y)" .
  qed
qed

lemma attributes_non_Element: "nodeType k \<noteq> Node_Element \<Longrightarrow> attributes k = []"
  by (cases k) auto

lemma reassign_fold:
  assumes x: "x < length s"
  shows "reassign d s x =
           fold (\<lambda>a t. set_ownerDocument d t a) (attributes (kind (s ! x))) (set_ownerDocument d s x)"
proof -
  let ?s1 = "set_ownerDocument d s x"
  have k: "kind (?s1 ! x) = kind (s ! x)" using x by (simp add: nth_set_ownerDocument)
  have g: "get ?s1 x = Some (?s1 ! x)" using x by (simp add: get_def)
  show ?thesis
  proof (cases "nodeType (kind (s ! x)) = Node_Element")
    case True
    then show ?thesis using x k g by (simp add: reassign_def nodeType_of_def)
  next
    case False
    then have "attributes (kind (s ! x)) = []" by (rule attributes_non_Element)
    then show ?thesis using False x k g by (simp add: reassign_def nodeType_of_def)
  qed
qed

lemma reassign_nth:
  assumes x: "x < length s"
  shows "length (reassign d s x) = length s"
    and "y < length s \<Longrightarrow> reassign d s x ! y =
           (if y = x \<or> y \<in> set (attributes (kind (s ! x)))
            then (s ! y)\<lparr>ownerDocument := Some d\<rparr> else s ! y)"
proof -
  let ?s1 = "set_ownerDocument d s x"
  let ?as = "attributes (kind (s ! x))"
  have f: "length (fold (\<lambda>a t. set_ownerDocument d t a) ?as ?s1) = length ?s1
   \<and> (\<forall>y < length ?s1. fold (\<lambda>a t. set_ownerDocument d t a) ?as ?s1 ! y =
          (if y \<in> set ?as then (?s1 ! y)\<lparr>ownerDocument := Some d\<rparr> else ?s1 ! y))"
    by (rule fold_set_ownerDocument)
  show "length (reassign d s x) = length s"
    unfolding reassign_fold [OF x] using f by simp
  show "reassign d s x ! y =
           (if y = x \<or> y \<in> set ?as then (s ! y)\<lparr>ownerDocument := Some d\<rparr> else s ! y)"
    if y: "y < length s"
  proof -
    have "reassign d s x ! y = (if y \<in> set ?as then (?s1 ! y)\<lparr>ownerDocument := Some d\<rparr> else ?s1 ! y)"
      unfolding reassign_fold [OF x] using f y by simp
    then show ?thesis using y by (simp add: nth_set_ownerDocument)
  qed
qed

lemma reassign_own_step:
  assumes x: "x < length s"
  shows "own_step d s (reassign d s x)"
  unfolding own_step_def
  using reassign_nth(1) [OF x] reassign_nth(2) [OF x] by simp

lemma reassign_owned:
  assumes x: "x < length s" and as: "\<forall>a \<in> set (attributes (kind (s ! x))). a < length s"
  shows "owned d (reassign d s x) x"
proof -
  let ?s' = "reassign d s x"
  have l: "length ?s' = length s" using reassign_nth(1) [OF x] .
  have sx: "?s' ! x = (s ! x)\<lparr>ownerDocument := Some d\<rparr>"
    using reassign_nth(2) [OF x x] by simp
  have 1: "ownerDocument_of ?s' x = Some d"
    using x l sx by (simp add: ownerDocument_of_def get_def)
  have 2: "attributes_of ?s' x = attributes (kind (s ! x))"
    using x l sx by (simp add: attributes_of_def get_def)
  have 3: "ownerDocument_of ?s' a = Some d" if a: "a \<in> set (attributes (kind (s ! x)))" for a
  proof -
    have al: "a < length s" using as a by blast
    have "?s' ! a = (s ! a)\<lparr>ownerDocument := Some d\<rparr>"
      using reassign_nth(2) [OF x al] a by simp
    then show ?thesis using al l by (simp add: ownerDocument_of_def get_def)
  qed
  show ?thesis unfolding owned_def using 1 2 3 by simp
qed

lemma reassign_frame:
  assumes x: "x < length s" and y: "y < length s" and nt: "y \<notin> touched s x"
  shows "reassign d s x ! y = s ! y"
proof -
  have "y \<noteq> x" using nt touched_self(1) by blast
  moreover have "y \<notin> set (attributes (kind (s ! x)))"
    using nt touched_self(2) [of s x] x by (auto simp: attributes_of_def get_def)
  ultimately show ?thesis using reassign_nth(2) [OF x y] by simp
qed

lemma wf_tree_Suc:
  "wf_tree (Suc k) s r \<longleftrightarrow>
     r < length s \<and> (\<forall>a \<in> set (attributes (kind (s ! r))). a < length s)
     \<and> (\<forall>c \<in> set (childNodes (s ! r)). wf_tree k s c)"
  by (auto simp: get_def list_all_iff)

lemma wf_tree_own_step:
  assumes st: "own_step d s s'"
  shows "wf_tree k s r \<Longrightarrow> wf_tree k s' r"
proof (induction k arbitrary: r)
  case 0
  then show ?case by simp
next
  case (Suc k)
  have r: "r < length s" and as: "\<forall>a \<in> set (attributes (kind (s ! r))). a < length s"
    and cs: "\<forall>c \<in> set (childNodes (s ! r)). wf_tree k s c"
    using Suc.prems unfolding wf_tree_Suc by blast+
  have l: "length s' = length s" using st unfolding own_step_def by blast
  have k: "kind (s' ! r) = kind (s ! r)" "childNodes (s' ! r) = childNodes (s ! r)"
    using st r unfolding own_step_def by blast+
  show ?case
    unfolding wf_tree_Suc k l using r as cs Suc.IH by blast
qed

lemma children_of_nth: "r < length s \<Longrightarrow> children_of s r = childNodes (s ! r)"
  by (simp add: children_of_def get_def)

section \<open>The walk\<close>

lemma forEach_children_reassign:
  assumes IH: "\<And>s r. wf_tree k s r \<Longrightarrow>
                 \<exists>s'. forEachDescendant_fuel k s r (reassign d) = Some s'
                      \<and> walk_post d s (subtree s r) (touched s r) s'"
  shows "\<forall>c \<in> set cs. wf_tree k s c \<Longrightarrow>
           \<exists>s'. forEach_children k s cs (reassign d) = Some s'
                \<and> walk_post d s (\<Union>c \<in> set cs. subtree s c) (\<Union>c \<in> set cs. touched s c) s'"
proof (induction cs arbitrary: s)
  case Nil
  then show ?case unfolding walk_post_def by (simp add: own_step_refl)
next
  case (Cons c cs)
  have wc: "wf_tree k s c" using Cons.prems by simp
  from IH [OF wc] obtain s1 where
    r1: "forEachDescendant_fuel k s c (reassign d) = Some s1"
    and p1: "walk_post d s (subtree s c) (touched s c) s1"
    by blast
  have st1: "own_step d s s1" and ow1: "\<forall>x \<in> subtree s c. owned d s1 x"
    and fr1: "\<forall>y < length s. y \<notin> touched s c \<longrightarrow> s1 ! y = s ! y"
    using p1 unfolding walk_post_def by blast+
  have l1: "length s1 = length s" using st1 unfolding own_step_def by blast
  have "\<forall>x \<in> set cs. wf_tree k s1 x"
    using Cons.prems wf_tree_own_step [OF st1] by simp
  from Cons.IH [OF this] obtain s' where
    r2: "forEach_children k s1 cs (reassign d) = Some s'"
    and p2: "walk_post d s1 (\<Union>c \<in> set cs. subtree s1 c) (\<Union>c \<in> set cs. touched s1 c) s'"
    by blast
  have st2: "own_step d s1 s'" and ow2: "\<forall>x \<in> (\<Union>c \<in> set cs. subtree s1 c). owned d s' x"
    and fr2: "\<forall>y < length s1. y \<notin> (\<Union>c \<in> set cs. touched s1 c) \<longrightarrow> s' ! y = s1 ! y"
    using p2 unfolding walk_post_def by blast+
  have sub: "subtree s1 x = subtree s x" for x
    by (rule subtree_cong) (rule own_step_children_of [OF st1])
  have tch: "touched s1 x = touched s x" for x
    unfolding touched_def sub own_step_attributes_of [OF st1] ..
  have 1: "forEach_children k s (c # cs) (reassign d) = Some s'"
    using r1 r2 by simp
  have 2: "own_step d s s'" using own_step_trans [OF st1 st2] .
  have 3: "\<forall>x \<in> (\<Union>c \<in> set (c # cs). subtree s c). owned d s' x"
  proof
    fix x assume "x \<in> (\<Union>c \<in> set (c # cs). subtree s c)"
    then consider "x \<in> subtree s c" | "x \<in> (\<Union>c \<in> set cs. subtree s1 c)"
      unfolding sub by auto
    then show "owned d s' x"
    proof cases
      case 1
      then show ?thesis using ow1 owned_step [OF st2] by blast
    next
      case 2
      then show ?thesis using ow2 by blast
    qed
  qed
  have 4: "\<forall>y < length s. y \<notin> (\<Union>c \<in> set (c # cs). touched s c) \<longrightarrow> s' ! y = s ! y"
  proof (intro allI impI)
    fix y assume y: "y < length s" and nt: "y \<notin> (\<Union>c \<in> set (c # cs). touched s c)"
    have a: "y \<notin> touched s c" using nt by simp
    have b: "y \<notin> (\<Union>c \<in> set cs. touched s1 c)" using nt unfolding tch by simp
    have "s' ! y = s1 ! y" using fr2 y l1 b by simp
    then show "s' ! y = s ! y" using fr1 y a by simp
  qed
  show ?case unfolding walk_post_def using 1 2 3 4 by blast
qed

lemma forEachDescendant_reassign:
  "wf_tree k s r \<Longrightarrow>
     \<exists>s'. forEachDescendant_fuel k s r (reassign d) = Some s'
          \<and> walk_post d s (subtree s r) (touched s r) s'"
proof (induction k arbitrary: s r)
  case 0
  then show ?case by simp
next
  case (Suc k)
  have r: "r < length s" and as: "\<forall>a \<in> set (attributes (kind (s ! r))). a < length s"
    and cs: "\<forall>c \<in> set (childNodes (s ! r)). wf_tree k s c"
    using Suc.prems unfolding wf_tree_Suc by blast+
  define s1 where "s1 = reassign d s r"
  have st1: "own_step d s s1" unfolding s1_def using reassign_own_step [OF r] .
  have ow1: "owned d s1 r" unfolding s1_def using reassign_owned [OF r as] .
  have l1: "length s1 = length s" using st1 unfolding own_step_def by blast
  have ch1: "children_of s1 r = childNodes (s ! r)"
    using own_step_children_of [OF st1] children_of_nth [OF r] by simp
  have "\<forall>c \<in> set (childNodes (s ! r)). wf_tree k s1 c"
    using cs wf_tree_own_step [OF st1] by blast
  from forEach_children_reassign [of k d, OF Suc.IH this] obtain s' where
    r2: "forEach_children k s1 (childNodes (s ! r)) (reassign d) = Some s'"
    and p2: "walk_post d s1 (\<Union>c \<in> set (childNodes (s ! r)). subtree s1 c)
               (\<Union>c \<in> set (childNodes (s ! r)). touched s1 c) s'"
    by blast
  have st2: "own_step d s1 s'"
    and ow2: "\<forall>x \<in> (\<Union>c \<in> set (childNodes (s ! r)). subtree s1 c). owned d s' x"
    and fr2: "\<forall>y < length s1. y \<notin> (\<Union>c \<in> set (childNodes (s ! r)). touched s1 c) \<longrightarrow> s' ! y = s1 ! y"
    using p2 unfolding walk_post_def by blast+
  have sub: "subtree s1 x = subtree s x" for x
    by (rule subtree_cong) (rule own_step_children_of [OF st1])
  have tch: "touched s1 x = touched s x" for x
    unfolding touched_def sub own_step_attributes_of [OF st1] ..
  have 1: "forEachDescendant_fuel (Suc k) s r (reassign d) = Some s'"
    using r2 ch1 unfolding s1_def by simp
  have 2: "own_step d s s'" using own_step_trans [OF st1 st2] .
  have 3: "\<forall>x \<in> subtree s r. owned d s' x"
  proof
    fix x assume "x \<in> subtree s r"
    then consider "x = r" | c where "c \<in> set (childNodes (s ! r))" "x \<in> subtree s c"
      using subtree_cases [of x s r] children_of_nth [OF r] by auto
    then show "owned d s' x"
    proof cases
      case 1
      then show ?thesis using ow1 owned_step [OF st2] by blast
    next
      case 2
      then have "x \<in> (\<Union>c \<in> set (childNodes (s ! r)). subtree s1 c)" unfolding sub by blast
      then show ?thesis using ow2 by blast
    qed
  qed
  have 4: "\<forall>y < length s. y \<notin> touched s r \<longrightarrow> s' ! y = s ! y"
  proof (intro allI impI)
    fix y assume y: "y < length s" and nt: "y \<notin> touched s r"
    have "y \<notin> touched s c" if "c \<in> set (childNodes (s ! r))" for c
      using touched_child_subset [of c s r] that nt children_of_nth [OF r] by auto
    then have b: "y \<notin> (\<Union>c \<in> set (childNodes (s ! r)). touched s1 c)" unfolding tch by blast
    have "s' ! y = s1 ! y" using fr2 y l1 b by simp
    also have "\<dots> = s ! y" unfolding s1_def using reassign_frame [OF r y nt] .
    finally show "s' ! y = s ! y" .
  qed
  show ?case unfolding walk_post_def using 1 2 3 4 by blast
qed

lemma wf_tree_mono: "wf_tree k s r \<Longrightarrow> k \<le> k' \<Longrightarrow> wf_tree k' s r"
proof (induction k arbitrary: r k')
  case 0
  then show ?case by simp
next
  case (Suc k)
  then obtain j where j: "k' = Suc j" "k \<le> j" by (cases k') auto
  have "r < length s" "\<forall>a \<in> set (attributes (kind (s ! r))). a < length s"
    "\<forall>c \<in> set (childNodes (s ! r)). wf_tree k s c"
    using Suc.prems(1) unfolding wf_tree_Suc by blast+
  then show ?case unfolding j(1) wf_tree_Suc using Suc.IH j(2) by blast
qed

lemma ordered_wf_tree:
  assumes o: "ordered b s" and af: "attrs_fresh b s"
  shows "b \<le> x \<Longrightarrow> x < length s \<Longrightarrow> wf_tree (length s - x) s x"
proof (induction "length s - x" arbitrary: x rule: less_induct)
  case less
  obtain k where k: "length s - x = Suc k" using less.prems by (cases "length s - x") auto
  have as: "\<forall>a \<in> set (attributes (kind (s ! x))). a < length s"
    using af less.prems unfolding attrs_fresh_def by blast
  have cs: "\<forall>c \<in> set (childNodes (s ! x)). x < c \<and> c < length s"
    using o less.prems unfolding ordered_def by blast
  have "wf_tree k s c" if c: "c \<in> set (childNodes (s ! x))" for c
  proof -
    have c1: "x < c" "c < length s" using cs c by blast+
    then have "length s - c < length s - x" "b \<le> c" using less.prems by auto
    then have "wf_tree (length s - c) s c" using less.hyps c1 by blast
    moreover have "length s - c \<le> k" using c1 k by simp
    ultimately show ?thesis by (rule wf_tree_mono)
  qed
  then show ?case unfolding k wf_tree_Suc using less.prems as by blast
qed

lemma ordered_subtree:
  assumes o: "ordered b s"
  shows "x \<in> subtree s r \<Longrightarrow> b \<le> r \<Longrightarrow> r < length s \<Longrightarrow> b \<le> x \<and> x < length s"
proof (induction rule: subtree.induct)
  case self
  then show ?case by simp
next
  case (child x c)
  then have x: "b \<le> x \<and> x < length s" by simp
  then have "c \<in> set (childNodes (s ! x))" using child.hyps(2) by (simp add: children_of_nth)
  then have "x < c \<and> c < length s" using o x unfolding ordered_def by blast
  then show ?case using x by simp
qed

lemma ordered_touched:
  assumes o: "ordered b s" and af: "attrs_fresh b s" and r: "b \<le> r" "r < length s"
  shows "y \<in> touched s r \<Longrightarrow> b \<le> y"
proof -
  assume "y \<in> touched s r"
  then consider "y \<in> subtree s r" | x where "x \<in> subtree s r" "y \<in> set (attributes_of s x)"
    unfolding touched_def by blast
  then show "b \<le> y"
  proof cases
    case 1
    then show ?thesis using ordered_subtree [OF o _ r] by blast
  next
    case 2
    have x: "b \<le> x \<and> x < length s" using ordered_subtree [OF o 2(1) r] .
    then have "y \<in> set (attributes (kind (s ! x)))" using 2(2) by (simp add: attributes_of_def get_def)
    then show ?thesis using af x unfolding attrs_fresh_def by blast
  qed
qed

section \<open>Cloning a document\<close>

lemma shape_fuel_mono:
  "shape_fuel k s r = Some t \<Longrightarrow> k \<le> k' \<Longrightarrow> shape_fuel k' s r = Some t"
proof (induction k arbitrary: r t k')
  case 0
  then show ?case by simp
next
  case (Suc k)
  obtain j where j: "k' = Suc j" "k \<le> j" using Suc.prems(2) by (cases k') auto
  obtain n ts where n: "get s r = Some n" and ts: "shapes_fuel k s (childNodes n) = Some ts"
    and t: "t = Shape (erase (kind n)) (map (kind_of s) (attributes (kind n))) ts"
    using Suc.prems(1) by (auto split: option.splits)
  have "shapes_fuel j s cs = Some us" if "shapes_fuel k s cs = Some us" for cs us
    using that
  proof (induction cs arbitrary: us)
    case Nil
    then show ?case by simp
  next
    case (Cons c cs)
    then obtain u us' where u: "shape_fuel k s c = Some u" "shapes_fuel k s cs = Some us'" "us = u # us'"
      by (auto split: option.splits)
    have "shape_fuel j s c = Some u" using Suc.IH [OF u(1) j(2)] .
    moreover have "shapes_fuel j s cs = Some us'" using Cons.IH [OF u(2)] .
    ultimately show ?case using u(3) by simp
  qed
  from this [OF ts] show ?case unfolding j(1) using n t by simp
qed

lemma shape_of_fuel:
  "shape_fuel k s r = Some t \<Longrightarrow> k \<le> length s \<Longrightarrow> shape_of s r = Some t"
  unfolding shape_of_def by (rule shape_fuel_mono)

lemma ordered_base: "ordered (length s) s"
  unfolding ordered_def by simp

lemma attrs_fresh_base: "attrs_fresh (length s) s"
  unfolding attrs_fresh_def by simp

lemma extends_take_eq: "extends s s' \<Longrightarrow> take (length s) s' = s"
  using extends_take by blast

lemma kind_of_Some: "kind_of s r = Some k \<Longrightarrow> r < length s \<and> kind (s ! r) = k"
  by (cases "r < length s") (simp_all add: kind_of_def get_def)

lemma parentNode_of_nth: "r < length s \<Longrightarrow> parentNode_of s r = parentNode (s ! r)"
  by (simp add: parentNode_of_def get_def)

lemma clone_Document_shallow:
  assumes "kind_of s d = Some Document"
  shows "cloneNode s d False = Some (Inr (length s, s @ [detached Document None]))"
proof -
  have d: "d < length s" "kind (s ! d) = Document" using kind_of_Some [OF assms] by blast+
  then obtain k where k: "length s = Suc k" by (cases "length s") auto
  show ?thesis
    unfolding cloneNode_def k using d
    by (simp add: get_def new_Document_def new_node_def k)
qed

lemma clone_Document_deep:
  assumes dk: "kind_of s d = Some Document" and v: "valid_tree (length s) s d"
  shows "\<exists>s'. cloneNode s d True = Some (Inr (length s, s'))
            \<and> take (length s) s' = s
            \<and> kind_of s' (length s) = Some Document
            \<and> parentNode_of s' (length s) = None
            \<and> length (children_of s' (length s)) = length (children_of s d)
            \<and> (\<forall>i < length (children_of s d).
                 length s < children_of s' (length s) ! i
                 \<and> parentNode_of s' (children_of s' (length s) ! i) = Some (length s)
                 \<and> shape_of s' (children_of s' (length s) ! i) = shape_of s (children_of s d ! i)
                 \<and> shape_of s (children_of s d ! i) \<noteq> None)"
proof -
  have d: "d < length s" "kind (s ! d) = Document" using kind_of_Some [OF dk] by blast+
  then obtain k where k: "length s = Suc k" by (cases "length s") auto
  let ?c = "length s"
  let ?cs = "childNodes (s ! d)"
  define s1 where "s1 = s @ [detached Document None]"
  have e1: "extends s s1" unfolding s1_def by (rule extends_append)
  have c1: "?c < length s1" unfolding s1_def by simp
  have n1: "s1 ! ?c = detached Document None" unfolding s1_def by simp
  have o1: "ordered (length s) s1"
    unfolding s1_def by (rule ordered_append_leaf [OF ordered_base]) (simp add: detached_def)
  have af1: "attrs_fresh (length s) s1"
    unfolding s1_def by (rule attrs_fresh_append [OF attrs_fresh_base]) (simp add: detached_def)
  have p1: "parentNode (s1 ! ?c) = None" unfolding n1 by (simp add: detached_def)
  have v': "valid_tree (Suc k) s d" using v unfolding k .
  have vs: "\<forall>x \<in> set ?cs. valid_tree k s x
            \<and> permitted_child (nodeType (kind (s1 ! ?c))) (nodeType (kind (s ! x)))"
    using valid_tree_Suc(3) [OF v'] d(2) unfolding n1 by (simp add: detached_def)
  have cnt: "nodeType (kind (s1 ! ?c)) = Node_Document \<longrightarrow>
            count_type s1 Node_Element (childNodes (s1 ! ?c)) + count_type s Node_Element ?cs \<le> 1
            \<and> count_type s1 Node_DocumentType (childNodes (s1 ! ?c))
                + count_type s Node_DocumentType ?cs \<le> 1"
    using valid_tree_Suc(4) [OF v'] d(2) unfolding n1 by (simp add: detached_def count_type_def)
  have IH: "\<And>t r. valid_tree k s r \<Longrightarrow> extends s t \<Longrightarrow> ordered (length s) t
                 \<Longrightarrow> attrs_fresh (length s) t
                 \<Longrightarrow> \<exists>c t'. cloneNode_fuel k t r True = Some (Inr (c, t'))
                            \<and> clone_post k s r t c t' True"
    using cloneNode_fuel_total by blast
  from clone_children_total [of k s, OF IH e1 o1 af1 order_refl c1 p1 vs cnt] obtain s' cs' where
    loop: "clone_children k s1 ?c ?cs = Some (Inr s')"
    and lp: "loop_post k s s1 ?c ?cs s' cs'"
    by blast
  have l1: "length s1 \<le> length s'"
    and l2: "\<forall>y < length s1. y \<noteq> ?c \<longrightarrow> s' ! y = s1 ! y"
    and l3: "s' ! ?c = (s1 ! ?c)\<lparr>childNodes := childNodes (s1 ! ?c) @ cs'\<rparr>"
    and l4: "length cs' = length ?cs"
    and l5: "\<forall>c' \<in> set cs'. length s1 \<le> c' \<and> c' < length s' \<and> parentNode (s' ! c') = Some ?c"
    and l6: "shapes_fuel k s' cs' = shapes_fuel k s ?cs"
    using lp unfolding loop_post_def by simp_all
  have res: "cloneNode s d True = Some (Inr (?c, s'))"
    unfolding cloneNode_def k using d loop
    by (simp add: get_def new_Document_def new_node_def s1_def k)
  have ex: "extends s s'"
    unfolding extends_def
  proof (intro conjI allI impI)
    show "length s \<le> length s'" using extends_len [OF e1] l1 by simp
  next
    fix y assume y: "y < length s"
    then have "y < length s1" "y \<noteq> ?c" using extends_len [OF e1] by auto
    then have "s' ! y = s1 ! y" using l2 by simp
    then show "s' ! y = s ! y" using extends_nth [OF e1 y] by simp
  qed
  have cl': "?c < length s'" using c1 l1 by simp
  have sc: "s' ! ?c = \<lparr>kind = Document, ownerDocument = None, parentNode = None, childNodes = cs'\<rparr>"
    unfolding l3 n1 by (simp add: detached_def)
  have chc: "children_of s' ?c = cs'" using cl' sc by (simp add: children_of_def get_def)
  have chd: "children_of s d = ?cs" using d(1) by (rule children_of_nth)
  have "\<forall>x \<in> set ?cs. \<exists>t. shape_fuel k s x = Some t"
    using vs valid_shape_Some by blast
  then obtain ts where ts: "shapes_fuel k s ?cs = Some ts"
    using shapes_fuel_Some by blast
  have nth0: "\<forall>i < length ?cs. shape_fuel k s (?cs ! i) = Some (ts ! i)"
    using shapes_fuel_nth [OF ts] by blast
  have nth1: "\<forall>i < length cs'. shape_fuel k s' (cs' ! i) = Some (ts ! i)"
    using shapes_fuel_nth [of k s' cs' ts] l6 ts by simp
  have per: "length s < cs' ! i \<and> parentNode_of s' (cs' ! i) = Some ?c
             \<and> shape_of s' (cs' ! i) = shape_of s (?cs ! i) \<and> shape_of s (?cs ! i) \<noteq> None"
    if i: "i < length ?cs" for i
  proof -
    have m: "cs' ! i \<in> set cs'" using i l4 by simp
    then have a: "length s1 \<le> cs' ! i" "cs' ! i < length s'" "parentNode (s' ! (cs' ! i)) = Some ?c"
      using l5 by blast+
    have b: "shape_of s (?cs ! i) = Some (ts ! i)"
      using nth0 i k by (intro shape_of_fuel [of k]) simp_all
    have c: "shape_of s' (cs' ! i) = Some (ts ! i)"
      using nth1 i l4 k l1 c1 by (intro shape_of_fuel [of k]) simp_all
    show ?thesis
      using a b c c1 by (simp add: parentNode_of_nth)
  qed
  show ?thesis
    using res extends_take_eq [OF ex] cl' sc chc chd l4 per
    by (simp add: kind_of_nth parentNode_of_nth)
qed

section \<open>Importing\<close>

lemma own_step_kind_of:
  assumes "own_step d s s'"
  shows "kind_of s' y = kind_of s y"
proof (cases "y < length s")
  case True
  then show ?thesis using assms unfolding own_step_def by (simp add: kind_of_def get_def)
next
  case False
  then show ?thesis using assms unfolding own_step_def by (simp add: kind_of_def get_def)
qed

lemma shape_own_step:
  assumes st: "own_step d s s'"
  shows "shape_fuel k s' x = shape_fuel k s x"
proof (induction k arbitrary: x)
  case 0
  then show ?case by simp
next
  case (Suc k)
  have l: "length s' = length s" using st unfolding own_step_def by blast
  have cs: "shapes_fuel k s' cs = shapes_fuel k s cs" for cs
    by (rule shapes_fuel_cong) (simp add: Suc.IH)
  have km: "map (kind_of s') as = map (kind_of s) as" for as
    by (simp add: own_step_kind_of [OF st])
  show ?case
  proof (cases "x < length s")
    case True
    then have "kind (s' ! x) = kind (s ! x)" "childNodes (s' ! x) = childNodes (s ! x)"
      using st unfolding own_step_def by blast+
    then show ?thesis using True l by (simp add: get_def cs km cong: option.case_cong)
  next
    case False
    then show ?thesis using l by (simp add: get_def)
  qed
qed

lemma nodeType_Document_iff: "nodeType k = Node_Document \<longleftrightarrow> k = Document"
  by (cases k) auto

lemma cloneNode_fuel_shallow:
  assumes r: "r < length s"
    and at: "\<forall>a \<in> set (attributes (kind (s ! r))). nodeType_of s a = Some Node_Attribute"
  shows "\<exists>c s'. cloneNode_fuel (Suc k) s r False = Some (Inr (c, s'))
                \<and> clone_post (Suc k) s r s c s' False"
proof -
  from shallow_total [OF at extends_refl ordered_base attrs_fresh_base] obtain c s1 where
    sh: "(if kind (s ! r) = Document then Some (new_Document s) else shallow_clone s (s ! r)) = Some (c, s1)"
    and e1: "extends s s1" and l1: "length s1 = Suc c" and c1: "length s \<le> c"
    and p1: "parentNode (s1 ! c) = None" and ch1: "childNodes (s1 ! c) = []"
    and k1: "erase (kind (s1 ! c)) = erase (kind (s ! r))"
    and a1: "map (kind_of s1) (attributes (kind (s1 ! c))) = map (kind_of s) (attributes (kind (s ! r)))"
    and o1: "ordered (length s) s1" and af1: "attrs_fresh (length s) s1"
    by blast
  have "cloneNode_fuel (Suc k) s r False = Some (Inr (c, s1))"
    using r sh by (simp add: get_def)
  moreover have "clone_post (Suc k) s r s c s1 False"
    unfolding clone_post_def using e1 c1 l1 p1 k1 a1 o1 af1 ch1 by simp
  ultimately show ?thesis by blast
qed

lemma importNode_guard:
  assumes "kind_of s node = Some Document \<or> kind_of s node = Some ShadowRoot"
  shows "importNode s d node deep = Some (Inl NotSupportedError)"
proof -
  have "node < length s \<and> (kind (s ! node) = Document \<or> kind (s ! node) = ShadowRoot)"
    using assms kind_of_Some by blast
  then show ?thesis by (auto simp: importNode_def get_def)
qed

lemma importNode_clone:
  assumes nk: "kind_of s node = Some k" and nd: "k \<noteq> Document" and ns: "k \<noteq> ShadowRoot"
    and v: "if deep then valid_tree (length s) s node
            else list_all (\<lambda>a. nodeType_of s a = Some Node_Attribute) (attributes_of s node)"
  shows "\<exists>c s'. importNode s d node deep = Some (Inr (c, s'))
          \<and> length s \<le> c \<and> c < length s' \<and> take (length s) s' = s
          \<and> parentNode_of s' c = None
          \<and> (\<forall>x \<in> subtree s' c. ownerDocument_of s' x = Some d
                \<and> (\<forall>a \<in> set (attributes_of s' x). ownerDocument_of s' a = Some d))
          \<and> map_option erase (kind_of s' c) = Some (erase k)
          \<and> map (kind_of s') (attributes_of s' c) = map (kind_of s) (attributes_of s node)
          \<and> (if deep then shape_of s' c = shape_of s node \<and> shape_of s node \<noteq> None
              else children_of s' c = [])"
proof -
  have n: "node < length s" "kind (s ! node) = k" using kind_of_Some [OF nk] by blast+
  obtain K where K: "length s = Suc K" using n(1) by (cases "length s") auto
  have "\<exists>c s1. cloneNode_fuel (Suc K) s node deep = Some (Inr (c, s1))
                \<and> clone_post (Suc K) s node s c s1 deep"
  proof (cases deep)
    case True
    then have "valid_tree (Suc K) s node" using v K by simp
    from cloneNode_fuel_total [OF this extends_refl ordered_base attrs_fresh_base]
    show ?thesis .
  next
    case False
    then have "\<forall>a \<in> set (attributes (kind (s ! node))). nodeType_of s a = Some Node_Attribute"
      using v n(1) by (simp add: list_all_iff attributes_of_def get_def)
    from cloneNode_fuel_shallow [OF n(1) this] False show ?thesis by simp
  qed
  then obtain c s1 where cl: "cloneNode s node deep = Some (Inr (c, s1))"
    and post: "clone_post (Suc K) s node s c s1 deep"
    unfolding cloneNode_def K by blast
  have e1: "extends s s1" and c1: "length s \<le> c" and c2: "c < length s1"
    and p1: "parentNode (s1 ! c) = None"
    and k1: "erase (kind (s1 ! c)) = erase k"
    and a1: "map (kind_of s1) (attributes (kind (s1 ! c))) = map (kind_of s) (attributes (kind (s ! node)))"
    and o1: "ordered (length s) s1" and af1: "attrs_fresh (length s) s1"
    and sh1: "if deep then shape_fuel (Suc K) s1 c = shape_fuel (Suc K) s node
              else childNodes (s1 ! c) = []"
    using post n(2) unfolding clone_post_def by (simp_all del: shape_fuel.simps)
  have "wf_tree (length s1 - c) s1 c" using ordered_wf_tree [OF o1 af1 c1 c2] .
  then have "wf_tree (length s1) s1 c" by (rule wf_tree_mono) simp
  from forEachDescendant_reassign [OF this, of d] obtain s2 where
    w: "forEachDescendant_fuel (length s1) s1 c (reassign d) = Some s2"
    and wp: "walk_post d s1 (subtree s1 c) (touched s1 c) s2"
    by blast
  have st: "own_step d s1 s2" and ow: "\<forall>x \<in> subtree s1 c. owned d s2 x"
    and fr: "\<forall>y < length s1. y \<notin> touched s1 c \<longrightarrow> s2 ! y = s1 ! y"
    using wp unfolding walk_post_def by blast+
  have l2: "length s2 = length s1" using st unfolding own_step_def by blast
  have res: "importNode s d node deep = Some (Inr (c, s2))"
    using n nd ns cl w
    by (simp add: importNode_def get_def forEachDescendant_def nodeType_Document_iff)
  have ex: "extends s s2"
    unfolding extends_def
  proof (intro conjI allI impI)
    show "length s \<le> length s2" using extends_len [OF e1] l2 by simp
  next
    fix y assume y: "y < length s"
    have "y \<notin> touched s1 c" using ordered_touched [OF o1 af1 c1 c2, of y] y by auto
    moreover have "y < length s1" using y extends_len [OF e1] by simp
    ultimately have "s2 ! y = s1 ! y" using fr by blast
    then show "s2 ! y = s ! y" using extends_nth [OF e1 y] by simp
  qed
  have c2': "c < length s2" using c2 l2 by simp
  have sc: "kind (s2 ! c) = kind (s1 ! c)" "childNodes (s2 ! c) = childNodes (s1 ! c)"
    "parentNode (s2 ! c) = parentNode (s1 ! c)"
    using st c2 unfolding own_step_def by blast+
  have sub: "subtree s2 c = subtree s1 c"
    by (rule subtree_cong) (rule own_step_children_of [OF st])
  have own: "\<forall>x \<in> subtree s2 c. ownerDocument_of s2 x = Some d
                \<and> (\<forall>a \<in> set (attributes_of s2 x). ownerDocument_of s2 a = Some d)"
    using ow unfolding sub owned_def by blast
  have ko: "kind_of s2 = kind_of s1"
    by (rule ext) (rule own_step_kind_of [OF st])
  have am: "map (kind_of s2) (attributes_of s2 c) = map (kind_of s) (attributes_of s node)"
    using a1 c2' n(1) sc(1) unfolding ko by (simp add: attributes_of_def get_def)
  have shp: "shape_of s2 c = shape_of s node \<and> shape_of s node \<noteq> None" if deep
  proof -
    have "valid_tree (Suc K) s node" using v K that by simp
    then obtain t where t: "shape_fuel (Suc K) s node = Some t" using valid_shape_Some by blast
    then have "shape_fuel (Suc K) s2 c = Some t"
      using sh1 that shape_own_step [OF st, of "Suc K" c] by (simp del: shape_fuel.simps)
    then have "shape_of s2 c = Some t"
      using extends_len [OF ex] K by (intro shape_of_fuel [of "Suc K"]) simp_all
    moreover have "shape_of s node = Some t"
      using t K by (intro shape_of_fuel [of "Suc K"]) simp_all
    ultimately show ?thesis by simp
  qed
  have nch: "children_of s2 c = []" if "\<not> deep"
    using sh1 that sc(2) c2' by (simp add: children_of_nth)
  show ?thesis
    using res c1 c2' extends_take_eq [OF ex] p1 sc own k1 am shp nch
    by (simp add: parentNode_of_nth kind_of_nth)
qed

section \<open>Adopting\<close>

lemma wf_tree_shrink:
  assumes l: "length s' = length s"
    and k: "\<forall>y < length s. kind (s' ! y) = kind (s ! y)"
    and c: "\<forall>y < length s. set (childNodes (s' ! y)) \<subseteq> set (childNodes (s ! y))"
  shows "wf_tree n s r \<Longrightarrow> wf_tree n s' r"
proof (induction n arbitrary: r)
  case 0
  then show ?case by simp
next
  case (Suc n)
  have r: "r < length s" and as: "\<forall>a \<in> set (attributes (kind (s ! r))). a < length s"
    and cs: "\<forall>c \<in> set (childNodes (s ! r)). wf_tree n s c"
    using Suc.prems unfolding wf_tree_Suc by blast+
  have "kind (s' ! r) = kind (s ! r)" using k r by blast
  moreover have "set (childNodes (s' ! r)) \<subseteq> set (childNodes (s ! r))" using c r by blast
  ultimately show ?case
    unfolding wf_tree_Suc l using r as cs Suc.IH by auto
qed

lemma ownerDocument_of_nth: "r < length s \<Longrightarrow> ownerDocument_of s r = ownerDocument (s ! r)"
  by (simp add: ownerDocument_of_def get_def)

lemma unlink_nth:
  assumes y: "y < length s"
  shows "update (update s p (\<lambda>n. n\<lparr>childNodes := remove1 node (childNodes n)\<rparr>))
           node (\<lambda>n. n\<lparr>parentNode := None\<rparr>) ! y =
         (if y = node
          then (if y = p then (s ! y)\<lparr>childNodes := remove1 node (childNodes (s ! y))\<rparr> else s ! y)
                 \<lparr>parentNode := None\<rparr>
          else if y = p then (s ! y)\<lparr>childNodes := remove1 node (childNodes (s ! y))\<rparr>
          else s ! y)"
  using y by (simp add: nth_update)

lemma wf_tree_subtree:
  assumes w: "wf_tree k s r"
  shows "x \<in> subtree s r \<Longrightarrow> wf_tree k s x"
proof (induction rule: subtree.induct)
  case self
  then show ?case using w .
next
  case (child x c)
  obtain j where j: "k = Suc j" using child.IH by (cases k) auto
  have x: "x < length s" and cs: "\<forall>c \<in> set (childNodes (s ! x)). wf_tree j s c"
    using child.IH unfolding j wf_tree_Suc by blast+
  have "c \<in> set (childNodes (s ! x))" using child.hyps(2) x by (simp add: children_of_nth)
  then have "wf_tree j s c" using cs by blast
  then show ?case unfolding j by (rule wf_tree_mono) simp
qed

lemma wf_tree_no_cycle:
  "wf_tree k s r \<Longrightarrow> x \<in> subtree s r \<Longrightarrow> r \<notin> set (children_of s x)"
proof (induction k arbitrary: r x)
  case 0
  then show ?case by simp
next
  case (Suc k)
  show ?case
  proof
    assume r: "r \<in> set (children_of s x)"
    have wx: "wf_tree (Suc k) s x" using wf_tree_subtree [OF Suc.prems(1) Suc.prems(2)] .
    then have x: "x < length s" and cs: "\<forall>c \<in> set (childNodes (s ! x)). wf_tree k s c"
      unfolding wf_tree_Suc by blast+
    have "r \<in> set (childNodes (s ! x))" using r x by (simp add: children_of_nth)
    then have "wf_tree k s r" using cs by blast
    from Suc.IH [OF this Suc.prems(2)] r show False by blast
  qed
qed

lemma adopt_detach:
  assumes n: "node < length s"
    and pc: "\<forall>p. parentNode (s ! node) = Some p \<longrightarrow> node \<in> set (children_of s p)"
  shows "\<exists>s1. (case parentNode (s ! node) of None \<Rightarrow> Inr (node, s)
                | Some p \<Rightarrow> removeChild s p node) = Inr (node, s1)
           \<and> length s1 = length s
           \<and> (\<forall>y < length s. kind (s1 ! y) = kind (s ! y)
                 \<and> ownerDocument (s1 ! y) = ownerDocument (s ! y)
                 \<and> parentNode (s1 ! y) = (if y = node then None else parentNode (s ! y))
                 \<and> childNodes (s1 ! y) =
                     (if parentNode (s ! node) = Some y then remove1 node (childNodes (s ! y))
                      else childNodes (s ! y)))"
proof (cases "parentNode (s ! node)")
  case None
  then show ?thesis by simp
next
  case (Some p)
  have mem: "node \<in> set (children_of s p)" using pc Some by blast
  define s1 where "s1 = update (update s p (\<lambda>n. n\<lparr>childNodes := remove1 node (childNodes n)\<rparr>))
           node (\<lambda>n. n\<lparr>parentNode := None\<rparr>)"
  have nth: "s1 ! y =
         (if y = node
          then (if y = p then (s ! y)\<lparr>childNodes := remove1 node (childNodes (s ! y))\<rparr> else s ! y)
                 \<lparr>parentNode := None\<rparr>
          else if y = p then (s ! y)\<lparr>childNodes := remove1 node (childNodes (s ! y))\<rparr>
          else s ! y)" if "y < length s" for y
    unfolding s1_def using unlink_nth [OF that] .
  have l: "length s1 = length s" unfolding s1_def by simp
  have 1: "(case parentNode (s ! node) of None \<Rightarrow> Inr (node, s)
                | Some p \<Rightarrow> removeChild s p node) = Inr (node, s1)"
    using Some mem unfolding s1_def by (simp add: removeChild_def)
  have 2: "kind (s1 ! y) = kind (s ! y) \<and> ownerDocument (s1 ! y) = ownerDocument (s ! y)
                 \<and> parentNode (s1 ! y) = (if y = node then None else parentNode (s ! y))
                 \<and> childNodes (s1 ! y) =
                     (if parentNode (s ! node) = Some y then remove1 node (childNodes (s ! y))
                      else childNodes (s ! y))" if "y < length s" for y
    unfolding nth [OF that] Some by auto
  show ?thesis using 1 l 2 by blast
qed

lemma subtree_detached:
  assumes w: "wf_tree k s node"
    and ch: "\<And>y. children_of s1 y =
               (if pn = Some y then remove1 node (children_of s y) else children_of s y)"
    and pc: "\<forall>p. pn = Some p \<longrightarrow> node \<in> set (children_of s p)"
  shows "subtree s1 node = subtree s node"
proof (intro set_eqI iffI)
  fix x assume "x \<in> subtree s1 node"
  then show "x \<in> subtree s node"
  proof (rule subtree_mono_children [rotated])
    fix y show "set (children_of s1 y) \<subseteq> set (children_of s y)"
      unfolding ch using set_remove1_subset [of node "children_of s y"] by auto
  qed
next
  fix x assume "x \<in> subtree s node"
  then show "x \<in> subtree s1 node"
  proof (induction rule: subtree.induct)
    case self
    then show ?case by (rule subtree.self)
  next
    case (child x c)
    have "pn \<noteq> Some x"
    proof
      assume "pn = Some x"
      then have "node \<in> set (children_of s x)" using pc by blast
      then show False using wf_tree_no_cycle [OF w child.hyps(1)] by blast
    qed
    then have "children_of s1 x = children_of s x" unfolding ch by simp
    then have "c \<in> set (children_of s1 x)" using child.hyps(2) by simp
    then show ?case using child.IH subtree.child by blast
  qed
qed

lemma adoptNode_guards:
  "(kind_of s node = Some Document \<longrightarrow> adoptNode s d node = Some (Inl NotSupportedError))
   \<and> (kind_of s node = Some ShadowRoot \<longrightarrow> adoptNode s d node = Some (Inl HierarchyRequestError))"
proof (intro conjI impI)
  assume "kind_of s node = Some Document"
  then have "node < length s \<and> kind (s ! node) = Document" by (rule kind_of_Some)
  then show "adoptNode s d node = Some (Inl NotSupportedError)"
    by (simp add: adoptNode_def get_def)
next
  assume "kind_of s node = Some ShadowRoot"
  then have "node < length s \<and> kind (s ! node) = ShadowRoot" by (rule kind_of_Some)
  then show "adoptNode s d node = Some (Inl HierarchyRequestError)"
    by (simp add: adoptNode_def get_def)
qed

lemma adoptNode_moves:
  assumes nk: "kind_of s node = Some k" and nd: "k \<noteq> Document" and ns: "k \<noteq> ShadowRoot"
    and pc: "\<forall>p. parentNode_of s node = Some p \<longrightarrow> node \<in> set (children_of s p)"
    and wf: "ownerDocument_of s node \<noteq> Some d \<longrightarrow> wf_tree (length s) s node"
  shows "\<exists>s'. adoptNode s d node = Some (Inr (node, s'))
          \<and> length s' = length s
          \<and> (\<forall>y. kind_of s' y = kind_of s y)
          \<and> (\<forall>y. parentNode_of s' y = (if y = node then None else parentNode_of s y))
          \<and> (\<forall>y. children_of s' y =
                (if parentNode_of s node = Some y then remove1 node (children_of s y)
                 else children_of s y))
          \<and> ownerDocument_of s' node = Some d
          \<and> (if ownerDocument_of s node = Some d
              then \<forall>y. ownerDocument_of s' y = ownerDocument_of s y
              else subtree s' node = subtree s node
                   \<and> (\<forall>x \<in> subtree s node. ownerDocument_of s' x = Some d
                         \<and> (\<forall>a \<in> set (attributes_of s x). ownerDocument_of s' a = Some d))
                   \<and> (\<forall>y. y \<notin> touched s node \<longrightarrow> ownerDocument_of s' y = ownerDocument_of s y))"
proof -
  have n: "node < length s" "kind (s ! node) = k" using kind_of_Some [OF nk] by blast+
  have pn: "parentNode_of s node = parentNode (s ! node)" using n(1) by (rule parentNode_of_nth)
  have on: "ownerDocument_of s node = ownerDocument (s ! node)" using n(1) by (rule ownerDocument_of_nth)
  have pc': "\<forall>p. parentNode (s ! node) = Some p \<longrightarrow> node \<in> set (children_of s p)"
    using pc unfolding pn .
  from adopt_detach [OF n(1) pc'] obtain s1 where
    det: "(case parentNode (s ! node) of None \<Rightarrow> Inr (node, s)
                | Some p \<Rightarrow> removeChild s p node) = Inr (node, s1)"
    and l1: "length s1 = length s"
    and same: "\<forall>y < length s. kind (s1 ! y) = kind (s ! y)
                 \<and> ownerDocument (s1 ! y) = ownerDocument (s ! y)
                 \<and> parentNode (s1 ! y) = (if y = node then None else parentNode (s ! y))
                 \<and> childNodes (s1 ! y) =
                     (if parentNode (s ! node) = Some y then remove1 node (childNodes (s ! y))
                      else childNodes (s ! y))"
    by blast
  have n1: "node < length s1" using n(1) l1 by simp
  have guard: "nodeType (kind (s ! node)) \<noteq> Node_Document" "kind (s ! node) \<noteq> ShadowRoot"
    using n(2) nd ns by (simp_all add: nodeType_Document_iff)
  have k1: "kind_of s1 y = kind_of s y" for y
    using same l1 by (cases "y < length s") (simp_all add: kind_of_def get_def)
  have o1: "ownerDocument_of s1 y = ownerDocument_of s y" for y
    using same l1 by (cases "y < length s") (simp_all add: ownerDocument_of_def get_def)
  have p1: "parentNode_of s1 y = (if y = node then None else parentNode_of s y)" for y
  proof (cases "y < length s")
    case True
    then show ?thesis using same l1 by (simp add: parentNode_of_def get_def)
  next
    case False
    then show ?thesis using l1 n(1) by (auto simp: parentNode_of_def get_def)
  qed
  have c1: "children_of s1 y =
              (if parentNode_of s node = Some y then remove1 node (children_of s y)
               else children_of s y)" for y
  proof (cases "y < length s")
    case True
    then show ?thesis using same l1 unfolding pn by (simp add: children_of_def get_def)
  next
    case False
    then show ?thesis using l1 by (simp add: children_of_def get_def)
  qed
  have a1: "attributes_of s1 y = attributes_of s y" for y
    using same l1 by (cases "y < length s") (simp_all add: attributes_of_def get_def)
  show ?thesis
  proof (cases "ownerDocument (s ! node) = Some d")
    case True
    have res: "adoptNode s d node = Some (Inr (node, s1))"
      using n(1) guard det True by (simp add: adoptNode_def Mutation_adoptNode_def get_def)
    have on1: "ownerDocument_of s1 node = Some d" unfolding o1 on using True .
    show ?thesis
      using res l1 k1 p1 c1 o1 on1 True unfolding on by simp
  next
    case False
    then have ne: "Some d \<noteq> ownerDocument (s ! node)" by auto
    have w0: "wf_tree (length s) s node" using wf False unfolding on by blast
    have sh: "\<forall>y < length s. set (childNodes (s1 ! y)) \<subseteq> set (childNodes (s ! y))"
    proof (intro allI impI)
      fix y assume "y < length s"
      then have "childNodes (s1 ! y) =
                     (if parentNode (s ! node) = Some y then remove1 node (childNodes (s ! y))
                      else childNodes (s ! y))" using same by blast
      then show "set (childNodes (s1 ! y)) \<subseteq> set (childNodes (s ! y))"
        using set_remove1_subset [of node "childNodes (s ! y)"] by auto
    qed
    have "wf_tree (length s1) s1 node"
      unfolding l1 using wf_tree_shrink [OF l1 _ sh w0] same by blast
    from forEachDescendant_reassign [OF this, of d] obtain s' where
      w: "forEachDescendant_fuel (length s1) s1 node (reassign d) = Some s'"
      and wp: "walk_post d s1 (subtree s1 node) (touched s1 node) s'"
      by blast
    have st: "own_step d s1 s'" and ow: "\<forall>x \<in> subtree s1 node. owned d s' x"
      and fr: "\<forall>y < length s1. y \<notin> touched s1 node \<longrightarrow> s' ! y = s1 ! y"
      using wp unfolding walk_post_def by blast+
    have l2: "length s' = length s1" using st unfolding own_step_def by blast
    have res: "adoptNode s d node = Some (Inr (node, s'))"
      using n(1) guard det ne w
      by (simp add: adoptNode_def Mutation_adoptNode_def get_def forEachDescendant_def)
    have k2: "kind_of s' y = kind_of s y" for y
      unfolding own_step_kind_of [OF st] k1 ..
    have c2: "children_of s' y =
              (if parentNode_of s node = Some y then remove1 node (children_of s y)
               else children_of s y)" for y
      unfolding own_step_children_of [OF st] c1 ..
    have p2: "parentNode_of s' y = (if y = node then None else parentNode_of s y)" for y
    proof -
      have "parentNode_of s' y = parentNode_of s1 y"
        using st l2 unfolding own_step_def
        by (cases "y < length s1") (simp_all add: parentNode_of_def get_def)
      then show ?thesis unfolding p1 .
    qed
    have sub1: "subtree s1 node = subtree s node"
      using subtree_detached [OF w0, of s1 "parentNode_of s node"] c1 pc by blast
    have sub: "subtree s' node = subtree s node"
      unfolding sub1 [symmetric] by (rule subtree_cong) (rule own_step_children_of [OF st])
    have a2: "attributes_of s' y = attributes_of s y" for y
      unfolding own_step_attributes_of [OF st] a1 ..
    have own: "\<forall>x \<in> subtree s node. ownerDocument_of s' x = Some d
                \<and> (\<forall>a \<in> set (attributes_of s x). ownerDocument_of s' a = Some d)"
      using ow unfolding sub1 owned_def a2 by blast
    have tch: "touched s1 node = touched s node"
      unfolding touched_def sub1 using a1 by simp
    have frm: "\<forall>y. y \<notin> touched s node \<longrightarrow> ownerDocument_of s' y = ownerDocument_of s y"
    proof (intro allI impI)
      fix y assume y: "y \<notin> touched s node"
      show "ownerDocument_of s' y = ownerDocument_of s y"
      proof (cases "y < length s1")
        case True
        then have "s' ! y = s1 ! y" using fr y unfolding tch by blast
        then have "ownerDocument_of s' y = ownerDocument_of s1 y"
          using True l2 by (simp add: ownerDocument_of_def get_def)
        then show ?thesis unfolding o1 .
      next
        case False
        then show ?thesis using l1 l2 by (simp add: ownerDocument_of_def get_def)
      qed
    qed
    have "node \<in> subtree s node" by (rule subtree.self)
    then have o2: "ownerDocument_of s' node = Some d" using own by blast
    have lf: "length s' = length s" using l1 l2 by simp
    show ?thesis
      using res lf k2 p2 c2 o2 sub own frm False unfolding on by simp
  qed
qed

text \<open>
  The older copy's \<open>adoptNode\<close> and the newer one agree on every node that is not a
  ShadowRoot (a class the older copy does not have).
\<close>

lemma set_ownerDocument_twice:
  "set_ownerDocument d (set_ownerDocument d s r) r = set_ownerDocument d s r"
  by (simp add: set_ownerDocument_def update_def)

lemma reassign_after_set:
  "reassign d (set_ownerDocument d s r) r = reassign d s r"
  by (simp add: reassign_def set_ownerDocument_twice)

lemma walk_after_set:
  "forEachDescendant (set_ownerDocument d s r) r True (reassign d)
     = forEachDescendant s r True (reassign d)"
proof (cases "length s")
  case 0
  then show ?thesis by (simp add: forEachDescendant_def)
next
  case (Suc k)
  then show ?thesis by (simp add: forEachDescendant_def reassign_after_set)
qed

lemma adoptNode_old_eq:
  assumes "kind_of s node \<noteq> Some ShadowRoot"
  shows "adoptNode_old s d node = adoptNode s d node"
proof (cases "get s node")
  case None
  then show ?thesis by (simp add: adoptNode_old_def adoptNode_def)
next
  case (Some n)
  then have ns: "kind n \<noteq> ShadowRoot" using assms by (simp add: kind_of_def)
  show ?thesis
  proof (cases "case parentNode n of None \<Rightarrow> Inr (node, s) | Some p \<Rightarrow> removeChild s p node")
    case (Inl e)
    then show ?thesis
      using Some ns by (simp add: adoptNode_old_def adoptNode_def Mutation_adoptNode_def)
  next
    case (Inr xs)
    obtain x s1 where xs: "xs = (x, s1)" by (cases xs)
    show ?thesis
      using Some ns Inr unfolding xs
      by (simp add: adoptNode_old_def adoptNode_def Mutation_adoptNode_def walk_after_set
          split: option.splits)
  qed
qed

section \<open>Claims on cloning, import and adoption\<close>

text \<open>
  \<open>Document.cloneNode\<close> of \<open>src/dom/Document.ts\<close>. On a Document, \<open>cloneNode(false)\<close>
  returns a reference that was unused before, and the store is the old one with one record
  more: a Document without parent and without children. When the tree under the document is
  valid, \<open>cloneNode(true)\<close> returns such a new Document too, leaves every record of the old
  store as it was, and gives the new Document as many children as the original has; the
  child at each position is a node made by the call, has the new Document as its parent, and
  has the shape of the original's child at that position.
\<close>

theorem Document_cloneNode:
  "kind_of s d = Some Document \<longrightarrow>
     cloneNode s d False = Some (Inr (length s, s @ [detached Document None]))
     \<and> (valid_tree (length s) s d \<longrightarrow>
          (\<exists>s'. cloneNode s d True = Some (Inr (length s, s'))
            \<and> take (length s) s' = s
            \<and> kind_of s' (length s) = Some Document
            \<and> parentNode_of s' (length s) = None
            \<and> length (children_of s' (length s)) = length (children_of s d)
            \<and> (\<forall>i < length (children_of s d).
                 length s < children_of s' (length s) ! i
                 \<and> parentNode_of s' (children_of s' (length s) ! i) = Some (length s)
                 \<and> shape_of s' (children_of s' (length s) ! i) = shape_of s (children_of s d ! i)
                 \<and> shape_of s (children_of s d ! i) \<noteq> None)))"
  using clone_Document_shallow [of s d] clone_Document_deep [of s d]
  by blast

theorem Document_cloneNode_witness:
  "kind_of store_two_documents 1 = Some Document
   \<and> valid_tree (length store_two_documents) store_two_documents 1
   \<and> children_of store_two_documents 1 = [2]
   \<and> cloneNode store_two_documents 1 False =
       Some (Inr (6, store_two_documents @ [detached Document None]))
   \<and> (\<exists>s'. cloneNode store_two_documents 1 True = Some (Inr (6, s'))
          \<and> take 6 s' = store_two_documents
          \<and> kind_of s' 6 = Some Document
          \<and> parentNode_of s' 6 = None
          \<and> length (children_of s' 6) = 1
          \<and> 6 < children_of s' 6 ! 0
          \<and> parentNode_of s' (children_of s' 6 ! 0) = Some 6
          \<and> shape_of s' (children_of s' 6 ! 0) = shape_of store_two_documents 2
          \<and> shape_of store_two_documents 2 \<noteq> None)"
proof -
  have k1: "kind_of store_two_documents 1 = Some Document"
    by (simp add: kind_of_def get_def store_two_documents_def)
  have v: "valid_tree (length store_two_documents) store_two_documents 1"
    by code_simp
  have c1: "children_of store_two_documents 1 = [2]"
    by (simp add: children_of_def get_def store_two_documents_def)
  have l: "length store_two_documents = 6"
    by (simp add: store_two_documents_def)
  show ?thesis
    using k1 v c1 Document_cloneNode [of store_two_documents 1]
    unfolding l by simp
qed

text \<open>
  C5. The older copy of the class (the unnamed source file) does not do what the claim says:
  its \<open>cloneNode\<close> returns a Document without children whatever \<open>deep\<close> is. On the
  document at 1, which has a child, \<open>cloneNode(true)\<close> returns a new Document with no
  child.
\<close>

theorem cloneNode_old_ignores_deep:
  "children_of store_two_documents 1 = [2]
   \<and> cloneNode_old store_two_documents 1 True =
       (6, store_two_documents @ [detached Document None])
   \<and> children_of (snd (cloneNode_old store_two_documents 1 True)) 6 = []"
  by (simp add: cloneNode_old_def new_Document_def new_node_def update_def detached_def
      children_of_def get_def store_two_documents_def)

text \<open>
  C1. \<open>importNode(node, deep)\<close> throws NotSupportedError for a Document and for a
  ShadowRoot. For a node of any other class whose tree is valid (for \<open>deep = false\<close> it is
  enough that its attributes are \<open>Attr\<close> nodes) it returns a reference \<open>c\<close> that was
  unused before; every record of the old store is left as it was, so the original keeps its
  parent, its owner document and its subtree; the clone has no parent; every node of the
  clone's subtree, the clone included, and every attribute of every node in it is owned by
  the importing document \<open>d\<close>; the clone has the class and payload of the original and
  copies of its attributes, and with \<open>deep\<close> the shape of the original's whole tree,
  without it no children.
\<close>

theorem importNode_imports:
  "(kind_of s node = Some Document \<or> kind_of s node = Some ShadowRoot \<longrightarrow>
      importNode s d node deep = Some (Inl NotSupportedError))
   \<and> (kind_of s node = Some k \<and> k \<noteq> Document \<and> k \<noteq> ShadowRoot
       \<and> (if deep then valid_tree (length s) s node
           else list_all (\<lambda>a. nodeType_of s a = Some Node_Attribute) (attributes_of s node)) \<longrightarrow>
       (\<exists>c s'. importNode s d node deep = Some (Inr (c, s'))
          \<and> length s \<le> c \<and> c < length s' \<and> take (length s) s' = s
          \<and> parentNode_of s' c = None
          \<and> (\<forall>x \<in> subtree s' c. ownerDocument_of s' x = Some d
                \<and> (\<forall>a \<in> set (attributes_of s' x). ownerDocument_of s' a = Some d))
          \<and> map_option erase (kind_of s' c) = Some (erase k)
          \<and> map (kind_of s') (attributes_of s' c) = map (kind_of s) (attributes_of s node)
          \<and> (if deep then shape_of s' c = shape_of s node \<and> shape_of s node \<noteq> None
              else children_of s' c = [])))"
  using importNode_guard [of s node d deep] importNode_clone [of s node k deep d]
  by blast

theorem importNode_imports_witness:
  "kind_of store_two_documents 1 = Some Document
   \<and> importNode store_two_documents 0 1 True = Some (Inl NotSupportedError)
   \<and> kind_of store_two_documents 2 = Some (Element None None ''root'' [3])
   \<and> valid_tree (length store_two_documents) store_two_documents 2
   \<and> (\<exists>c s'. importNode store_two_documents 0 2 True = Some (Inr (c, s'))
          \<and> length store_two_documents \<le> c \<and> c < length s'
          \<and> take (length store_two_documents) s' = store_two_documents
          \<and> parentNode_of s' c = None
          \<and> (\<forall>x \<in> subtree s' c. ownerDocument_of s' x = Some 0
                \<and> (\<forall>a \<in> set (attributes_of s' x). ownerDocument_of s' a = Some 0))
          \<and> map_option erase (kind_of s' c) = Some (Element None None ''root'' [])
          \<and> map (kind_of s') (attributes_of s' c)
              = map (kind_of store_two_documents) (attributes_of store_two_documents 2)
          \<and> shape_of s' c = shape_of store_two_documents 2
          \<and> shape_of store_two_documents 2 \<noteq> None)"
proof -
  have k1: "kind_of store_two_documents 1 = Some Document"
    by (simp add: kind_of_def get_def store_two_documents_def)
  have k2: "kind_of store_two_documents 2 = Some (Element None None ''root'' [3])"
    by (simp add: kind_of_def get_def store_two_documents_def)
  have v: "valid_tree (length store_two_documents) store_two_documents 2"
    by code_simp
  have ne: "Element None None ''root'' [3] \<noteq> Document" "Element None None ''root'' [3] \<noteq> ShadowRoot"
    by simp_all
  show ?thesis
    using k1 k2 v ne
      importNode_imports [of store_two_documents 1 0 True Document]
      importNode_imports [of store_two_documents 2 0 True "Element None None ''root'' [3]"]
    by simp
qed

text \<open>
  C2, as the claim states it, fails: a ShadowRoot is not a Document, and \<open>adoptNode\<close>
  throws HierarchyRequestError for it.
\<close>

theorem adoptNode_not_every_other_node:
  "nodeType_of [detached Document None, detached ShadowRoot (Some 0)] 1 = Some Node_DocumentFragment
   \<and> adoptNode [detached Document None, detached ShadowRoot (Some 0)] 0 1
       = Some (Inl HierarchyRequestError)"
  by (simp add: adoptNode_def nodeType_of_def get_def detached_def)

text \<open>
  C2, amended. \<open>adoptNode(node)\<close> throws NotSupportedError for a Document and
  HierarchyRequestError for a ShadowRoot. For a node of any other class that is among the
  children of its parent, if it has one, and whose tree is well formed, it returns the same
  reference and allocates nothing. The store afterwards is told from the store before: every
  node keeps its class and payload; every node keeps its parent, but the adopted node, which
  has none; every node keeps its child list, but the former parent, whose list has lost the
  adopted node. So the subtree of the node is the one it had. The node's owner document is
  the adopting document \<open>d\<close>. If the owner document was \<open>d\<close> already, no owner document
  in the store changes; otherwise every node of that subtree and every attribute of every
  node in it is owned by \<open>d\<close>, and every node outside them keeps its owner document.
\<close>

theorem adoptNode_adopts:
  "(kind_of s node = Some Document \<longrightarrow> adoptNode s d node = Some (Inl NotSupportedError))
   \<and> (kind_of s node = Some ShadowRoot \<longrightarrow> adoptNode s d node = Some (Inl HierarchyRequestError))
   \<and> (kind_of s node = Some k \<and> k \<noteq> Document \<and> k \<noteq> ShadowRoot
       \<and> (\<forall>p. parentNode_of s node = Some p \<longrightarrow> node \<in> set (children_of s p))
       \<and> (ownerDocument_of s node \<noteq> Some d \<longrightarrow> wf_tree (length s) s node) \<longrightarrow>
       (\<exists>s'. adoptNode s d node = Some (Inr (node, s'))
          \<and> length s' = length s
          \<and> (\<forall>y. kind_of s' y = kind_of s y)
          \<and> (\<forall>y. parentNode_of s' y = (if y = node then None else parentNode_of s y))
          \<and> (\<forall>y. children_of s' y =
                (if parentNode_of s node = Some y then remove1 node (children_of s y)
                 else children_of s y))
          \<and> ownerDocument_of s' node = Some d
          \<and> (if ownerDocument_of s node = Some d
              then \<forall>y. ownerDocument_of s' y = ownerDocument_of s y
              else subtree s' node = subtree s node
                   \<and> (\<forall>x \<in> subtree s node. ownerDocument_of s' x = Some d
                         \<and> (\<forall>a \<in> set (attributes_of s x). ownerDocument_of s' a = Some d))
                   \<and> (\<forall>y. y \<notin> touched s node \<longrightarrow>
                          ownerDocument_of s' y = ownerDocument_of s y))))"
  using adoptNode_guards [of s node d] adoptNode_moves [of s node k d]
  by blast

theorem adoptNode_adopts_witness:
  "kind_of store_two_documents 1 = Some Document
   \<and> adoptNode store_two_documents 0 1 = Some (Inl NotSupportedError)
   \<and> parentNode_of store_two_documents 2 = Some 1
   \<and> children_of store_two_documents 1 = [2]
   \<and> children_of store_two_documents 2 = [4, 5]
   \<and> attributes_of store_two_documents 2 = [3]
   \<and> ownerDocument_of store_two_documents 2 = Some 1
   \<and> wf_tree (length store_two_documents) store_two_documents 2
   \<and> (\<exists>s'. adoptNode store_two_documents 0 2 = Some (Inr (2, s'))
          \<and> length s' = length store_two_documents
          \<and> kind_of s' 2 = Some (Element None None ''root'' [3])
          \<and> parentNode_of s' 2 = None
          \<and> children_of s' 1 = []
          \<and> children_of s' 2 = [4, 5]
          \<and> parentNode_of s' 4 = Some 2
          \<and> parentNode_of s' 5 = Some 2
          \<and> ownerDocument_of s' 2 = Some 0
          \<and> ownerDocument_of s' 3 = Some 0
          \<and> ownerDocument_of s' 4 = Some 0
          \<and> ownerDocument_of s' 5 = Some 0)"
proof -
  let ?s = store_two_documents
  have k1: "kind_of ?s 1 = Some Document"
    by (simp add: kind_of_def get_def store_two_documents_def)
  have k2: "kind_of ?s 2 = Some (Element None None ''root'' [3])"
    by (simp add: kind_of_def get_def store_two_documents_def)
  have p2: "parentNode_of ?s 2 = Some 1"
    by (simp add: parentNode_of_def get_def store_two_documents_def)
  have p4: "parentNode_of ?s 4 = Some 2"
    by (simp add: parentNode_of_def get_def store_two_documents_def)
  have p5: "parentNode_of ?s 5 = Some 2"
    by (simp add: parentNode_of_def get_def store_two_documents_def)
  have c1: "children_of ?s 1 = [2]"
    by (simp add: children_of_def get_def store_two_documents_def)
  have c2: "children_of ?s 2 = [4, 5]"
    by (simp add: children_of_def get_def store_two_documents_def)
  have a2: "attributes_of ?s 2 = [3]"
    by (simp add: attributes_of_def get_def store_two_documents_def)
  have o2: "ownerDocument_of ?s 2 = Some 1"
    by (simp add: ownerDocument_of_def get_def store_two_documents_def)
  have w: "wf_tree (length ?s) ?s 2"
    by code_simp
  have ne: "Element None None ''root'' [3] \<noteq> Document" "Element None None ''root'' [3] \<noteq> ShadowRoot"
    by simp_all
  have g: "adoptNode ?s 0 1 = Some (Inl NotSupportedError)"
    using k1 adoptNode_adopts [of ?s 1 0 Document] by blast
  have hyp: "kind_of ?s 2 = Some (Element None None ''root'' [3])
       \<and> Element None None ''root'' [3] \<noteq> Document \<and> Element None None ''root'' [3] \<noteq> ShadowRoot
       \<and> (\<forall>p. parentNode_of ?s 2 = Some p \<longrightarrow> 2 \<in> set (children_of ?s p))
       \<and> (ownerDocument_of ?s 2 \<noteq> Some 0 \<longrightarrow> wf_tree (length ?s) ?s 2)"
    using k2 ne p2 c1 w by simp
  have "ownerDocument_of ?s 2 \<noteq> Some 0" using o2 by simp
  with adoptNode_adopts [of ?s 2 0 "Element None None ''root'' [3]"] hyp
  obtain s' where r: "adoptNode ?s 0 2 = Some (Inr (2, s'))"
    and l: "length s' = length ?s"
    and kd: "\<forall>y. kind_of s' y = kind_of ?s y"
    and pn: "\<forall>y. parentNode_of s' y = (if y = 2 then None else parentNode_of ?s y)"
    and ch: "\<forall>y. children_of s' y =
                (if parentNode_of ?s 2 = Some y then remove1 2 (children_of ?s y)
                 else children_of ?s y)"
    and own: "\<forall>x \<in> subtree ?s 2. ownerDocument_of s' x = Some 0
                         \<and> (\<forall>a \<in> set (attributes_of ?s x). ownerDocument_of s' a = Some 0)"
    by auto
  have s2: "2 \<in> subtree ?s 2" by (rule subtree.self)
  have s4: "4 \<in> subtree ?s 2" by (rule subtree.child [OF s2]) (simp add: c2)
  have s5: "5 \<in> subtree ?s 2" by (rule subtree.child [OF s2]) (simp add: c2)
  have e1: "kind_of s' 2 = Some (Element None None ''root'' [3])" using kd k2 by simp
  have e2: "parentNode_of s' 2 = None" using pn by simp
  have e3: "children_of s' 1 = []" using ch p2 c1 by simp
  have e4: "children_of s' 2 = [4, 5]" using ch p2 c2 by simp
  have e5: "parentNode_of s' 4 = Some 2" using pn p4 by simp
  have e6: "parentNode_of s' 5 = Some 2" using pn p5 by simp
  have e7: "ownerDocument_of s' 2 = Some 0" using own s2 by blast
  have e8: "ownerDocument_of s' 3 = Some 0" using own s2 a2 by simp
  have e9: "ownerDocument_of s' 4 = Some 0" using own s4 by blast
  have e10: "ownerDocument_of s' 5 = Some 0" using own s5 by blast
  have "\<exists>s'. adoptNode ?s 0 2 = Some (Inr (2, s'))
          \<and> length s' = length ?s
          \<and> kind_of s' 2 = Some (Element None None ''root'' [3])
          \<and> parentNode_of s' 2 = None
          \<and> children_of s' 1 = []
          \<and> children_of s' 2 = [4, 5]
          \<and> parentNode_of s' 4 = Some 2
          \<and> parentNode_of s' 5 = Some 2
          \<and> ownerDocument_of s' 2 = Some 0
          \<and> ownerDocument_of s' 3 = Some 0
          \<and> ownerDocument_of s' 4 = Some 0
          \<and> ownerDocument_of s' 5 = Some 0"
    using r l e1 e2 e3 e4 e5 e6 e7 e8 e9 e10 by blast
  then show ?thesis
    using k1 g p2 c1 c2 a2 o2 w by blast
qed

end
